theory Spec2Isabelle
  imports Main
begin

section \<open>The redaction service (services/redaction.js)\<close>

text \<open>
  The module compiles a pattern specification into RegExp objects and applies them to a
  text: \<open>identifySensitiveText\<close> lists the matches, \<open>previewSensitiveContent\<close> wraps
  them in a highlight marker, \<open>redactSensitiveContent\<close> replaces them by a fixed token.
  All matching is done by the host: \<open>RegExp.prototype.exec\<close>, \<open>String.prototype.replace\<close>
  and the \<open>RegExp\<close> constructor. The first two are modelled after ECMA-262 below; the
  constructor (the parser of pattern sources) is a parameter \<open>mk\<close> of the model.

  Strings are lists of 8-bit code units (\<open>string\<close>); console output is not modelled.
\<close>

subsection \<open>Patterns and the backtracking matcher\<close>

text \<open>
  The syntax tree of a pattern: the constructs of the four default patterns (classes,
  sequence, groups, bounded and unbounded quantifiers, greedy or lazy, word boundary),
  and alternation with the two anchors, which the source-stripping pattern of
  \<open>compilePatterns\<close> uses. Captures are not recorded: the module reads only
  \<open>match[0]\<close> and \<open>match.index\<close>.
\<close>

datatype citem = CChar char | CRange char char | CDigit | CSpace | CWord

datatype regex =
    REmpty
  | RSet "citem list"
  | RNotSet "citem list"
  | RSeq regex regex
  | RAlt regex regex
  | RGroup regex
  | RQuant regex nat "nat option" bool
  | RWordB
  | RStart
  | REnd

definition code_unit :: "char \<Rightarrow> nat" where
  "code_unit c = of_char c"

definition is_digit :: "char \<Rightarrow> bool" where
  "is_digit c = (48 \<le> code_unit c \<and> code_unit c \<le> 57)"

text \<open>White space and line terminators below 256: TAB, LF, VT, FF, CR, SP, NBSP.\<close>

definition is_space :: "char \<Rightarrow> bool" where
  "is_space c = (code_unit c \<in> set [9, 10, 11, 12, 13, 32, 160])"

definition is_word_char :: "char \<Rightarrow> bool" where
  "is_word_char c =
     (let n = code_unit c
      in (97 \<le> n \<and> n \<le> 122) \<or> (65 \<le> n \<and> n \<le> 90) \<or> (48 \<le> n \<and> n \<le> 57) \<or> n = 95)"

fun in_citem :: "citem \<Rightarrow> char \<Rightarrow> bool" where
  "in_citem (CChar a) c = (c = a)"
| "in_citem (CRange lo hi) c = (code_unit lo \<le> code_unit c \<and> code_unit c \<le> code_unit hi)"
| "in_citem CDigit c = is_digit c"
| "in_citem CSpace c = is_space c"
| "in_citem CWord c = is_word_char c"

fun dec_max :: "nat option \<Rightarrow> nat option" where
  "dec_max None = None"
| "dec_max (Some k) = Some (k - 1)"

text \<open>
  A matcher maps a start position to the end positions it can reach, in the order in
  which backtracking tries them; the head of the list is the match the host reports.

  \<open>RepeatMatcher\<close> is the quantifier of ECMA-262: \<open>m\<close> matches the atom, \<open>n\<close> is
  the length of the input, \<open>mn\<close> and \<open>mx\<close> the bounds (\<open>None\<close> is no upper bound).
  Once the lower bound is met an iteration that does not consume input is rejected; the
  test is written \<open>y \<le> x \<or> n < y\<close>, which on the end positions of a matcher is the
  standard's \<open>y = x\<close> (lemma \<open>RepeatMatcher_empty_check\<close>) and makes the recursion
  terminate for every \<open>m\<close>.
\<close>

function RepeatMatcher ::
  "(nat \<Rightarrow> nat list) \<Rightarrow> nat \<Rightarrow> nat \<Rightarrow> nat option \<Rightarrow> bool \<Rightarrow> nat \<Rightarrow> nat list" where
  "RepeatMatcher m n mn mx greedy x =
     (if mx = Some 0 then [x]
      else
        let d = (\<lambda>y. if mn = 0 \<and> (y \<le> x \<or> n < y) then []
                     else RepeatMatcher m n (mn - 1) (dec_max mx) greedy y)
        in if mn \<noteq> 0 then concat (map d (m x))
           else if greedy then concat (map d (m x)) @ [x]
           else x # concat (map d (m x)))"
  by pat_completeness auto
termination
  by (relation "measures [\<lambda>(m, n, mn, mx, g, x). mn, \<lambda>(m, n, mn, mx, g, x). n - x]") auto

declare RepeatMatcher.simps [simp del]

definition is_word_at :: "string \<Rightarrow> nat \<Rightarrow> bool" where
  "is_word_at s e = (e < length s \<and> is_word_char (s ! e))"

fun ends :: "regex \<Rightarrow> string \<Rightarrow> nat \<Rightarrow> nat list" where
  "ends REmpty s x = [x]"
| "ends (RSet cs) s x =
     (if x < length s \<and> list_ex (\<lambda>i. in_citem i (s ! x)) cs then [Suc x] else [])"
| "ends (RNotSet cs) s x =
     (if x < length s \<and> \<not> list_ex (\<lambda>i. in_citem i (s ! x)) cs then [Suc x] else [])"
| "ends (RSeq a b) s x = concat (map (ends b s) (ends a s x))"
| "ends (RAlt a b) s x = ends a s x @ ends b s x"
| "ends (RGroup a) s x = ends a s x"
| "ends (RQuant a mn mx greedy) s x = RepeatMatcher (ends a s) (length s) mn mx greedy x"
| "ends RWordB s x =
     (if (0 < x \<and> is_word_at s (x - 1)) \<noteq> is_word_at s x then [x] else [])"
| "ends RStart s x = (if x = 0 then [x] else [])"
| "ends REnd s x = (if x = length s then [x] else [])"

text \<open>
  The search of \<open>RegExpBuiltinExec\<close>: from position \<open>i\<close> on, the first position at
  which the pattern matches, with the end of that match; no match once \<open>i\<close> is beyond
  the end of the input.
\<close>

function search :: "regex \<Rightarrow> string \<Rightarrow> nat \<Rightarrow> (nat \<times> nat) option" where
  "search r s i =
     (if length s < i then None
      else case ends r s i of
             [] \<Rightarrow> search r s (Suc i)
           | e # _ \<Rightarrow> Some (i, e))"
  by pat_completeness auto
termination
  by (relation "measure (\<lambda>(r, s, i). Suc (length s) - i)") auto

declare search.simps [simp del]

text \<open>Every end position lies between the start position and the end of the input.\<close>

lemma RepeatMatcher_range:
  "(\<forall>j e. x0 \<le> j \<and> j \<le> n \<and> e \<in> set (m j) \<longrightarrow> j \<le> e \<and> e \<le> n) \<Longrightarrow>
   x0 \<le> x \<Longrightarrow> x \<le> n \<Longrightarrow> e \<in> set (RepeatMatcher m n mn mx g x) \<Longrightarrow> x \<le> e \<and> e \<le> n"
proof (induction m n mn mx g x arbitrary: e rule: RepeatMatcher.induct)
  case (1 m n mn mx g x)
  note m = "1.prems"(1) and x0 = "1.prems"(2) and xn = "1.prems"(3)
  have step: "x \<le> e \<and> e \<le> n"
    if nz: "mx \<noteq> Some 0" and y: "y \<in> set (m x)"
      and e: "e \<in> set (if mn = 0 \<and> (y \<le> x \<or> n < y) then []
                         else RepeatMatcher m n (mn - 1) (dec_max mx) g y)" for y
  proof -
    from e have guard: "\<not> (mn = 0 \<and> (y \<le> x \<or> n < y))"
      and e': "e \<in> set (RepeatMatcher m n (mn - 1) (dec_max mx) g y)"
      by (auto split: if_splits)
    from m x0 xn y have yr: "x \<le> y \<and> y \<le> n" by blast
    with x0 have "x0 \<le> y" by simp
    from "1.IH" [OF nz guard m this _ e'] yr show ?thesis by simp
  qed
  show ?case
  proof (cases "mx = Some 0")
    case True
    with "1.prems"(4) xn show ?thesis by (subst (asm) RepeatMatcher.simps) simp
  next
    case False
    let ?d = "\<lambda>y. if mn = 0 \<and> (y \<le> x \<or> n < y) then []
                     else RepeatMatcher m n (mn - 1) (dec_max mx) g y"
    from "1.prems"(4) False have "e = x \<or> e \<in> set (concat (map ?d (m x)))"
      by (subst (asm) RepeatMatcher.simps) (simp add: Let_def split: if_splits)
    then show ?thesis
    proof
      assume "e = x"
      with xn show ?thesis by simp
    next
      assume "e \<in> set (concat (map ?d (m x)))"
      then obtain y where "y \<in> set (m x)" "e \<in> set (?d y)" by auto
      with step [OF False] show ?thesis by blast
    qed
  qed
qed

lemma ends_range:
  "x \<le> length s \<Longrightarrow> e \<in> set (ends r s x) \<Longrightarrow> x \<le> e \<and> e \<le> length s"
proof (induction r arbitrary: x e)
  case (RSeq a b)
  from RSeq.prems(2) obtain y where y: "y \<in> set (ends a s x)" and e: "e \<in> set (ends b s y)"
    by auto
  from RSeq.IH(1) [OF RSeq.prems(1) y] have xy: "x \<le> y \<and> y \<le> length s" .
  with RSeq.IH(2) [of y e] e show ?case by simp
next
  case (RAlt a b)
  from RAlt.prems(2) have "e \<in> set (ends a s x) \<or> e \<in> set (ends b s x)" by simp
  with RAlt.IH RAlt.prems(1) show ?case by blast
next
  case (RGroup a)
  from RGroup.prems(2) have "e \<in> set (ends a s x)" by simp
  with RGroup.IH RGroup.prems(1) show ?case by blast
next
  case (RQuant a mn mx g)
  have "\<forall>j e. 0 \<le> j \<and> j \<le> length s \<and> e \<in> set (ends a s j) \<longrightarrow> j \<le> e \<and> e \<le> length s"
    using RQuant.IH by blast
  from RepeatMatcher_range [OF this _ RQuant.prems(1)] RQuant.prems(2)
  show ?case by simp
next
  case REmpty
  then show ?case by simp
next
  case (RSet cs)
  then show ?case by (simp split: if_splits)
next
  case (RNotSet cs)
  then show ?case by (simp split: if_splits)
next
  case RWordB
  then show ?case by (simp split: if_splits)
next
  case RStart
  then show ?case by (simp split: if_splits)
next
  case REnd
  then show ?case by (simp split: if_splits)
qed

lemma RepeatMatcher_empty_check:
  "x \<le> length s \<Longrightarrow> y \<in> set (ends a s x) \<Longrightarrow> (y \<le> x \<or> length s < y) = (y = x)"
  using ends_range [of x s y a] by auto

lemma search_range:
  "search r s i = Some (j, e) \<Longrightarrow> i \<le> j \<and> j \<le> e \<and> e \<le> length s"
proof (induction r s i rule: search.induct)
  case (1 r s i)
  show ?case
  proof (cases "length s < i")
    case True
    with "1.prems" show ?thesis by (simp add: search.simps)
  next
    case False
    show ?thesis
    proof (cases "ends r s i")
      case Nil
      with False "1.prems" have "search r s (Suc i) = Some (j, e)"
        by (simp add: search.simps [of r s i])
      from "1.IH" [OF False Nil this] show ?thesis by simp
    next
      case (Cons e' es)
      with False "1.prems" have "j = i" "e = e'"
        by (simp_all add: search.simps [of r s i])
      moreover have "e' \<in> set (ends r s i)" using Cons by simp
      ultimately show ?thesis using ends_range [of i s e' r] False by simp
    qed
  qed
qed

lemma search_again:
  "search r s i = Some (j, e) \<Longrightarrow> search r s j = Some (j, e)"
proof (induction r s i rule: search.induct)
  case (1 r s i)
  show ?case
  proof (cases "length s < i")
    case True
    with "1.prems" show ?thesis by (simp add: search.simps)
  next
    case False
    show ?thesis
    proof (cases "ends r s i")
      case Nil
      with False "1.prems" have "search r s (Suc i) = Some (j, e)"
        by (simp add: search.simps [of r s i])
      from "1.IH" [OF False Nil this] show ?thesis .
    next
      case (Cons e' es)
      with False "1.prems" have "j = i"
        by (simp_all add: search.simps [of r s i])
      with "1.prems" show ?thesis by simp
    qed
  qed
qed

subsection \<open>RegExp objects\<close>

text \<open>
  A RegExp object: its source text, the \<open>g\<close> flag, its matcher and the mutable
  \<open>lastIndex\<close>. Objects with other flags are outside the model.
\<close>

record regexp =
  source :: string
  global :: bool
  matcher :: regex
  lastIndex :: nat

definition RegExp_toString :: "regexp \<Rightarrow> string" where
  "RegExp_toString R = ''/'' @ source R @ ''/'' @ (if global R then ''g'' else [])"

text \<open>The array \<open>exec\<close> returns, reduced to the two entries the module reads.\<close>

record match_array =
  m_index :: nat
  m_0 :: string

text \<open>
  \<open>RegExp.prototype.exec\<close>: a global pattern starts at its \<open>lastIndex\<close> and stores the
  end of the match there, or 0 when there is none; a pattern without \<open>g\<close> starts at 0
  and leaves \<open>lastIndex\<close> alone. The object is returned with the result.
\<close>

definition RegExp_exec :: "regexp \<Rightarrow> string \<Rightarrow> match_array option \<times> regexp" where
  "RegExp_exec R S =
     (case search (matcher R) S (if global R then lastIndex R else 0) of
        None \<Rightarrow> (None, if global R then R\<lparr>lastIndex := 0\<rparr> else R)
      | Some (i, e) \<Rightarrow>
          (Some \<lparr>m_index = i, m_0 = take (e - i) (drop i S)\<rparr>,
           if global R then R\<lparr>lastIndex := e\<rparr> else R))"

text \<open>
  \<open>String.prototype.replace\<close> with a RegExp argument, after \<open>RegExp.prototype[@@replace]\<close>.
  \<open>replace_loop\<close> collects the results of repeated \<open>exec\<close> calls: a pattern without
  \<open>g\<close> stops after the first, a global one moves \<open>lastIndex\<close> one position on after an
  empty match and stops when \<open>exec\<close> finds nothing.
\<close>

lemma RegExp_exec_global:
  assumes "global R" and "RegExp_exec R S = (Some m, R')"
  shows "global R' \<and> lastIndex R \<le> m_index m \<and> lastIndex R' = m_index m + length (m_0 m)
         \<and> lastIndex R' \<le> length S \<and> R' = R\<lparr>lastIndex := lastIndex R'\<rparr>"
proof -
  from assms obtain i e where s: "search (matcher R) S (lastIndex R) = Some (i, e)"
    and m: "m = \<lparr>m_index = i, m_0 = take (e - i) (drop i S)\<rparr>" and R': "R' = R\<lparr>lastIndex := e\<rparr>"
    by (auto simp: RegExp_exec_def split: option.splits)
  from search_range [OF s] have r: "lastIndex R \<le> i" "i \<le> e" "e \<le> length S"
    by simp_all
  then have "length (take (e - i) (drop i S)) = e - i" by simp
  with m R' assms(1) r show ?thesis by simp
qed

function replace_loop :: "regexp \<Rightarrow> string \<Rightarrow> match_array list \<times> regexp" where
  "replace_loop rx S =
     (case RegExp_exec rx S of
        (None, rx') \<Rightarrow> ([], rx')
      | (Some result, rx') \<Rightarrow>
          if \<not> global rx then ([result], rx')
          else
            let rx'' = (if m_0 result = [] then rx'\<lparr>lastIndex := Suc (lastIndex rx')\<rparr> else rx');
                (results, rx_final) = replace_loop rx'' S
            in (result # results, rx_final))"
  by pat_completeness auto
termination
proof (relation "measure (\<lambda>(rx, S). Suc (length S) - lastIndex rx)")
  show "wf (measure (\<lambda>(rx, S). Suc (length S) - lastIndex rx))" by simp
next
  fix rx :: regexp and S x1 rx' result rx''
  assume a: "(x1, rx') = RegExp_exec rx S" "x1 = Some result" "\<not> \<not> global rx"
    and b: "rx'' = (if m_0 result = [] then rx'\<lparr>lastIndex := Suc (lastIndex rx')\<rparr> else rx')"
  from a have g: "global rx" and e: "RegExp_exec rx S = (Some result, rx')" by simp_all
  from RegExp_exec_global [OF g e]
  have r: "lastIndex rx \<le> m_index result"
    "lastIndex rx' = m_index result + length (m_0 result)" "lastIndex rx' \<le> length S"
    by simp_all
  have "lastIndex rx < lastIndex rx''"
  proof (cases "m_0 result = []")
    case True
    with b r show ?thesis by simp
  next
    case False
    then obtain c cs where "m_0 result = c # cs" by (cases "m_0 result") auto
    with b r show ?thesis by simp
  qed
  moreover from r have "lastIndex rx \<le> length S" by simp
  ultimately have "lastIndex rx < lastIndex rx''" "lastIndex rx \<le> length S" .
  then show "((rx'', S), (rx, S)) \<in> measure (\<lambda>(rx, S). Suc (length S) - lastIndex rx)"
    by simp
qed

declare replace_loop.simps [simp del]

text \<open>
  The result string: the text between the matches is copied, each match is replaced by
  what \<open>f\<close> returns for it (a replacer function, or a replacement text without \<open>$\<close>).
\<close>

fun replace_build ::
  "string \<Rightarrow> (match_array \<Rightarrow> string) \<Rightarrow> match_array list \<Rightarrow> string \<Rightarrow> nat \<Rightarrow> string" where
  "replace_build S f [] accumulatedResult nextSourcePosition =
     (if length S \<le> nextSourcePosition then accumulatedResult
      else accumulatedResult @ drop nextSourcePosition S)"
| "replace_build S f (result # results) accumulatedResult nextSourcePosition =
     (let position = min (m_index result) (length S)
      in if nextSourcePosition \<le> position
         then replace_build S f results
                (accumulatedResult @ take (position - nextSourcePosition) (drop nextSourcePosition S)
                   @ f result)
                (position + length (m_0 result))
         else replace_build S f results accumulatedResult nextSourcePosition)"

definition String_replace ::
  "string \<Rightarrow> regexp \<Rightarrow> (match_array \<Rightarrow> string) \<Rightarrow> string \<times> regexp" where
  "String_replace S rx f =
     (let (results, rx') = replace_loop (if global rx then rx\<lparr>lastIndex := 0\<rparr> else rx) S
      in (replace_build S f results [] 0, rx'))"

subsection \<open>Values, the store and the default patterns\<close>

text \<open>
  The content argument is typed as a string but not checked, so the model keeps the
  values a caller can pass in its place: \<open>null\<close>, \<open>undefined\<close> and booleans.
\<close>

datatype js_value = Text string | Null | Undefined | Boolean bool

fun ToString :: "js_value \<Rightarrow> string" where
  "ToString (Text s) = s"
| "ToString Null = ''null''"
| "ToString Undefined = ''undefined''"
| "ToString (Boolean b) = (if b then ''true'' else ''false'')"

datatype js_error = TypeError

text \<open>
  RegExp objects that outlive a call (the default patterns, and objects a caller passes
  in a list) live in a store and are named by their address. An object made by
  \<open>new RegExp\<close> during a call is reachable from the compiled list only, and is held there
  by value.
\<close>

type_synonym addr = nat

type_synonym store = "addr \<Rightarrow> regexp"

datatype pat_ref = Shared addr | Local regexp

fun deref :: "store \<Rightarrow> pat_ref \<Rightarrow> regexp" where
  "deref h (Shared a) = h a"
| "deref h (Local R) = R"

fun assign :: "store \<Rightarrow> pat_ref \<Rightarrow> regexp \<Rightarrow> store" where
  "assign h (Shared a) R = h(a := R)"
| "assign h (Local _) R = h"

definition bsl :: string where
  "bsl = [CHR 0x5C]"

definition alnum :: "citem list" where
  "alnum = [CRange CHR ''a'' CHR ''z'', CRange CHR ''A'' CHR ''Z'', CRange CHR ''0'' CHR ''9'']"

definition digits :: "nat \<Rightarrow> nat \<Rightarrow> regex" where
  "digits mn mx = RQuant (RSet [CDigit]) mn (Some mx) True"

definition optional :: "regex \<Rightarrow> regex" where
  "optional r = RQuant r 0 (Some 1) True"

definition one_or_more :: "regex \<Rightarrow> regex" where
  "one_or_more r = RQuant r 1 None True"

text \<open>Line 6, email addresses.\<close>

definition email_pattern :: regexp where
  "email_pattern =
     \<lparr>source = ''([a-zA-Z0-9_.+-]+@[a-zA-Z0-9-]+'' @ bsl @ ''.[a-zA-Z0-9-.]+)'',
      global = True,
      matcher =
        RGroup
          (RSeq (one_or_more (RSet (alnum @ [CChar CHR ''_'', CChar CHR ''.'', CChar CHR ''+'', CChar CHR ''-''])))
          (RSeq (RSet [CChar CHR ''@''])
          (RSeq (one_or_more (RSet (alnum @ [CChar CHR ''-''])))
          (RSeq (RSet [CChar CHR ''.''])
                (one_or_more (RSet (alnum @ [CChar CHR ''-'', CChar CHR ''.''])))))))  ,
      lastIndex = 0\<rparr>"

text \<open>Line 8, phone numbers.\<close>

definition phone_pattern :: regexp where
  "phone_pattern =
     \<lparr>source = ''('' @ bsl @ ''+'' @ bsl @ ''d{1,3}['' @ bsl @ ''s-])?'' @ bsl @ ''(?'' @ bsl @ ''d{3}''
                  @ bsl @ '')?['' @ bsl @ ''s.-]?'' @ bsl @ ''d{3}['' @ bsl @ ''s.-]?'' @ bsl @ ''d{4}'',
      global = True,
      matcher =
        RSeq (optional (RGroup (RSeq (RSet [CChar CHR ''+''])
                               (RSeq (digits 1 3) (RSet [CSpace, CChar CHR ''-''])))))
       (RSeq (optional (RSet [CChar CHR ''('']))
       (RSeq (digits 3 3)
       (RSeq (optional (RSet [CChar CHR '')'']))
       (RSeq (optional (RSet [CSpace, CChar CHR ''.'', CChar CHR ''-'']))
       (RSeq (digits 3 3)
       (RSeq (optional (RSet [CSpace, CChar CHR ''.'', CChar CHR ''-'']))
             (digits 4 4))))))),
      lastIndex = 0\<rparr>"

text \<open>Line 10, social security numbers.\<close>

definition ssn_pattern :: regexp where
  "ssn_pattern =
     \<lparr>source = bsl @ ''b'' @ bsl @ ''d{3}[-.]?'' @ bsl @ ''d{2}[-.]?'' @ bsl @ ''d{4}'' @ bsl @ ''b'',
      global = True,
      matcher =
        RSeq RWordB
       (RSeq (digits 3 3)
       (RSeq (optional (RSet [CChar CHR ''-'', CChar CHR ''.'']))
       (RSeq (digits 2 2)
       (RSeq (optional (RSet [CChar CHR ''-'', CChar CHR ''.'']))
       (RSeq (digits 4 4)
             RWordB))))),
      lastIndex = 0\<rparr>"

text \<open>Line 12, credit card numbers.\<close>

definition card_pattern :: regexp where
  "card_pattern =
     \<lparr>source = bsl @ ''b(?:'' @ bsl @ ''d[ -]*?){13,16}'' @ bsl @ ''b'',
      global = True,
      matcher =
        RSeq RWordB
       (RSeq (RQuant (RGroup (RSeq (RSet [CDigit])
                                   (RQuant (RSet [CChar CHR '' '', CChar CHR ''-'']) 0 None False)))
                     13 (Some 16) True)
             RWordB),
      lastIndex = 0\<rparr>"

text \<open>
  \<open>DEFAULT_PATTERNS\<close> is one array of four objects, shared by all calls. \<open>module_store\<close>
  is the store when the module has been loaded; an address that names no object of the
  program holds a filler.
\<close>

definition DEFAULT_PATTERNS :: "addr list" where
  "DEFAULT_PATTERNS = [0, 1, 2, 3]"

definition filler :: regexp where
  "filler = \<lparr>source = ''(?:)'', global = False, matcher = REmpty, lastIndex = 0\<rparr>"

definition module_store :: store where
  "module_store a =
     (if a = 0 then email_pattern
      else if a = 1 then phone_pattern
      else if a = 2 then ssn_pattern
      else if a = 3 then card_pattern
      else filler)"

subsection \<open>compilePatterns (lines 20 to 41)\<close>

text \<open>
  A pattern specification: \<open>null\<close> or \<open>undefined\<close>, a string, an array, or a RegExp
  object passed bare. An array element is a string, a RegExp object, or something else,
  which has no \<open>replace\<close> method: \<open>SrcOther\<close> when it can be converted to a string (a
  number, \<open>null\<close>, a plain object), \<open>SrcUnprintable\<close> when the conversion throws (a
  Symbol, an object whose \<open>toString\<close> is not a function, as the JSON value
  \<open>{"toString": 1}\<close>).
\<close>

datatype pattern_src = SrcString string | SrcRegExp addr | SrcOther | SrcUnprintable

datatype pattern_spec = PNull | PString string | PList "pattern_src list" | PRegExp addr

text \<open>
  The host's \<open>new RegExp(source, 'g')\<close>: \<open>None\<close> when it throws a SyntaxError, else
  the \<open>source\<close> property and the matcher of the new object.
\<close>

type_synonym regexp_constructor = "string \<Rightarrow> (string \<times> regex) option"

text \<open>\<open>split(',')\<close> and \<open>trim()\<close>.\<close>

fun split_comma :: "string \<Rightarrow> string list" where
  "split_comma [] = [[]]"
| "split_comma (c # cs) =
     (if c = CHR '','' then [] # split_comma cs
      else case split_comma cs of
             [] \<Rightarrow> [[c]]
           | p # ps \<Rightarrow> (c # p) # ps)"

definition trim :: "string \<Rightarrow> string" where
  "trim s = rev (dropWhile is_space (rev (dropWhile is_space s)))"

text \<open>Line 34: the pattern that removes a leading slash and a trailing slash with flags.\<close>

definition delimiters :: regexp where
  "delimiters =
     \<lparr>source = ''^'' @ bsl @ ''/|'' @ bsl @ ''/[gimuy]*$'',
      global = True,
      matcher =
        RAlt (RSeq RStart (RSet [CChar CHR ''/'']))
             (RSeq (RSet [CChar CHR ''/''])
             (RSeq (RQuant (RSet [CChar CHR ''g'', CChar CHR ''i'', CChar CHR ''m'',
                                  CChar CHR ''u'', CChar CHR ''y'']) 0 None True)
                   REnd)),
      lastIndex = 0\<rparr>"

definition strip_delimiters :: "string \<Rightarrow> string" where
  "strip_delimiters pattern = fst (String_replace pattern delimiters (\<lambda>_. []))"

text \<open>
  The body of the \<open>map\<close> callback. \<open>Inr None\<close> is the \<open>null\<close> the catch branch
  returns, reached when the constructor throws or when the element has no \<open>replace\<close>
  method. The catch branch first builds its log line from the element (line 37,
  \<open>`Invalid regex pattern: ${pattern}`\<close>); where that conversion throws, the callback
  throws.
\<close>

fun compile_source :: "regexp_constructor \<Rightarrow> pattern_src \<Rightarrow> js_error + pat_ref option" where
  "compile_source mk (SrcRegExp a) = Inr (Some (Shared a))"
| "compile_source mk (SrcString pattern) =
     (case mk (strip_delimiters pattern) of
        None \<Rightarrow> Inr None
      | Some (src, r) \<Rightarrow>
          Inr (Some (Local \<lparr>source = src, global = True, matcher = r, lastIndex = 0\<rparr>)))"
| "compile_source mk SrcOther = Inr None"
| "compile_source mk SrcUnprintable = Inl TypeError"

text \<open>\<open>Array.prototype.map\<close> with a callback that may throw, and \<open>filter(Boolean)\<close>.\<close>

fun Array_map :: "('a \<Rightarrow> js_error + 'b) \<Rightarrow> 'a list \<Rightarrow> js_error + 'b list" where
  "Array_map f [] = Inr []"
| "Array_map f (x # xs) =
     (case f x of
        Inl err \<Rightarrow> Inl err
      | Inr y \<Rightarrow> (case Array_map f xs of Inl err \<Rightarrow> Inl err | Inr ys \<Rightarrow> Inr (y # ys)))"

fun filter_Boolean :: "'a option list \<Rightarrow> 'a list" where
  "filter_Boolean [] = []"
| "filter_Boolean (None # xs) = filter_Boolean xs"
| "filter_Boolean (Some x # xs) = x # filter_Boolean xs"

text \<open>
  The empty string is falsy, the empty array is not. A bare RegExp object is neither
  falsy nor an array, and has no \<open>split\<close> method: the call throws outside the \<open>try\<close>.
\<close>

fun compilePatterns :: "regexp_constructor \<Rightarrow> pattern_spec \<Rightarrow> js_error + pat_ref list" where
  "compilePatterns mk PNull = Inr (map Shared DEFAULT_PATTERNS)"
| "compilePatterns mk (PString customPatterns) =
     (if customPatterns = [] then Inr (map Shared DEFAULT_PATTERNS)
      else case Array_map (compile_source mk)
                  (map (\<lambda>p. SrcString (trim p)) (split_comma customPatterns)) of
             Inl err \<Rightarrow> Inl err
           | Inr compiled \<Rightarrow> Inr (filter_Boolean compiled))"
| "compilePatterns mk (PList customPatterns) =
     (case Array_map (compile_source mk) customPatterns of
        Inl err \<Rightarrow> Inl err
      | Inr compiled \<Rightarrow> Inr (filter_Boolean compiled))"
| "compilePatterns mk (PRegExp a) = Inl TypeError"

subsection \<open>identifySensitiveText (lines 49 to 69)\<close>

record js_match =
  match_text :: string
  match_index :: nat
  match_length :: nat
  match_pattern :: string

text \<open>
  The \<open>while\<close> loop of lines 55 to 62, for one pattern. It may run forever, so it is a
  partial function: \<open>None\<close> is a loop that does not return.
\<close>

partial_function (option) exec_while ::
  "regexp \<Rightarrow> string \<Rightarrow> js_match list \<Rightarrow> (js_match list \<times> regexp) option" where
  "exec_while pattern content matches =
     (case RegExp_exec pattern content of
        (None, pattern') \<Rightarrow> Some (matches, pattern')
      | (Some match, pattern') \<Rightarrow>
          exec_while pattern' content
            (matches @ [\<lparr>match_text = m_0 match, match_index = m_index match,
                         match_length = length (m_0 match),
                         match_pattern = RegExp_toString pattern'\<rparr>]))"

declare exec_while.simps [code]

fun identify_forEach ::
  "store \<Rightarrow> pat_ref list \<Rightarrow> string \<Rightarrow> js_match list \<Rightarrow> (js_match list \<times> store) option" where
  "identify_forEach h [] content matches = Some (matches, h)"
| "identify_forEach h (p # ps) content matches =
     (case exec_while (deref h p) content matches of
        None \<Rightarrow> None
      | Some (matches', pattern') \<Rightarrow> identify_forEach (assign h p pattern') ps content matches')"

record scan_result =
  matches :: "js_match list"
  count :: nat

text \<open>\<open>exec\<close> converts its argument to a string; nothing else looks at the content.\<close>

definition identifySensitiveText ::
  "regexp_constructor \<Rightarrow> store \<Rightarrow> js_value \<Rightarrow> pattern_spec
     \<Rightarrow> ((js_error + scan_result) \<times> store) option" where
  "identifySensitiveText mk h content patterns =
     (case compilePatterns mk patterns of
        Inl err \<Rightarrow> Some (Inl err, h)
      | Inr compiledPatterns \<Rightarrow>
          (case identify_forEach h compiledPatterns (ToString content) [] of
             None \<Rightarrow> None
           | Some (ms, h') \<Rightarrow> Some (Inr \<lparr>matches = ms, count = length ms\<rparr>, h')))"

subsection \<open>previewSensitiveContent (lines 77 to 89)\<close>

definition mark_open :: string where
  \<open>mark_open = ''<mark class="redact-highlight">''\<close>

definition mark_close :: string where
  "mark_close = ''</mark>''"

definition highlight :: "match_array \<Rightarrow> string" where
  "highlight m = mark_open @ m_0 m @ mark_close"

fun replace_forEach ::
  "(match_array \<Rightarrow> string) \<Rightarrow> store \<Rightarrow> pat_ref list \<Rightarrow> string \<Rightarrow> string \<times> store" where
  "replace_forEach f h [] buf = (buf, h)"
| "replace_forEach f h (p # ps) buf =
     (let (buf', pattern') = String_replace buf (deref h p) f
      in replace_forEach f (assign h p pattern') ps buf')"

text \<open>
  A content that is not a string has no \<open>replace\<close> method: the first callback throws,
  and with no pattern the content is returned as it came.
\<close>

definition previewSensitiveContent ::
  "regexp_constructor \<Rightarrow> store \<Rightarrow> js_value \<Rightarrow> pattern_spec \<Rightarrow> (js_error + js_value) \<times> store" where
  "previewSensitiveContent mk h content patterns =
     (case compilePatterns mk patterns of
        Inl err \<Rightarrow> (Inl err, h)
      | Inr compiledPatterns \<Rightarrow>
          (case content of
             Text s \<Rightarrow>
               (let (previewContent, h') = replace_forEach highlight h compiledPatterns s
                in (Inr (Text previewContent), h'))
           | _ \<Rightarrow> if compiledPatterns = [] then (Inr content, h) else (Inl TypeError, h)))"

subsection \<open>redactSensitiveContent (lines 97 to 115)\<close>

definition REDACTED :: "match_array \<Rightarrow> string" where
  "REDACTED m = ''[REDACTED]''"

text \<open>
  Line 99 reads \<open>content.length\<close> before anything else, which throws on \<open>null\<close> and
  \<open>undefined\<close>. The \<open>match\<close> call of line 108 only feeds a log line; like the
  \<open>replace\<close> after it, it leaves a global pattern with \<open>lastIndex\<close> 0.
\<close>

definition redactSensitiveContent ::
  "regexp_constructor \<Rightarrow> store \<Rightarrow> js_value \<Rightarrow> pattern_spec \<Rightarrow> (js_error + js_value) \<times> store" where
  "redactSensitiveContent mk h content patterns =
     (if content = Null \<or> content = Undefined then (Inl TypeError, h)
      else case compilePatterns mk patterns of
        Inl err \<Rightarrow> (Inl err, h)
      | Inr compiledPatterns \<Rightarrow>
          (case content of
             Text s \<Rightarrow>
               (let (redactedContent, h') = replace_forEach REDACTED h compiledPatterns s
                in (Inr (Text redactedContent), h'))
           | _ \<Rightarrow> if compiledPatterns = [] then (Inr content, h) else (Inl TypeError, h)))"

subsection \<open>A constructor for literal sources\<close>

text \<open>
  The statements below hold for every constructor \<open>mk\<close>. To run the definitions on a
  concrete pattern specification one is needed: \<open>RegExp_literal\<close> compiles the sources
  that contain no pattern syntax, the empty source to the empty pattern \<open>(?:)\<close> and a
  source of letters, digits, underscores, spaces, \<open>@\<close> and \<open>-\<close> to the sequence of
  its characters, as the host does. It rejects every other source; of these, only
  sources the host rejects as well (an unmatched parenthesis) are used below.
\<close>

definition is_literal_char :: "char \<Rightarrow> bool" where
  "is_literal_char c = (is_word_char c \<or> c = CHR '' '' \<or> c = CHR ''@'' \<or> c = CHR ''-'')"

definition RegExp_literal :: regexp_constructor where
  "RegExp_literal src =
     (if src = [] then Some (''(?:)'', REmpty)
      else if list_all is_literal_char src
      then Some (src, foldr (\<lambda>c r. RSeq (RSet [CChar c]) r) src REmpty)
      else None)"

subsection \<open>A pattern object of the caller\<close>

text \<open>
  An array may hold pattern objects the caller has built, and used, before the call
  (line 32 returns them as they are). \<open>caller_pattern g i\<close> is \<open>/b/g\<close> (or \<open>/b/\<close>) with
  \<open>lastIndex\<close> \<open>i\<close>, as an earlier \<open>exec\<close> or \<open>test\<close> of the caller leaves it;
  \<open>caller_store R\<close> is the store of the loaded module with the object \<open>R\<close> of the caller
  at address 4.
\<close>

definition caller_pattern :: "bool \<Rightarrow> nat \<Rightarrow> regexp" where
  "caller_pattern g i =
     \<lparr>source = ''b'', global = g, matcher = RSeq (RSet [CChar CHR ''b'']) REmpty, lastIndex = i\<rparr>"

definition caller_store :: "regexp \<Rightarrow> store" where
  "caller_store R = module_store(4 := R)"

section \<open>The examples of the specification\<close>

text \<open>
  C1. On "Contact me at a@b.com or 555-123-4567" with no pattern specification,
  \<open>identifySensitiveText\<close> returns exactly two matches, "a@b.com" at offset 14 from the
  email pattern and then "555-123-4567" at offset 25 from the phone pattern, and
  \<open>redactSensitiveContent\<close> returns "Contact me at [REDACTED] or [REDACTED]".
\<close>

theorem contact_example:
  "map_option fst
     (identifySensitiveText mk module_store (Text ''Contact me at a@b.com or 555-123-4567'') PNull)
   = Some (Inr \<lparr>matches =
                  [\<lparr>match_text = ''a@b.com'', match_index = 14, match_length = 7,
                    match_pattern = RegExp_toString email_pattern\<rparr>,
                   \<lparr>match_text = ''555-123-4567'', match_index = 25, match_length = 12,
                    match_pattern = RegExp_toString phone_pattern\<rparr>],
                count = 2\<rparr>)
   \<and> fst (redactSensitiveContent mk module_store
            (Text ''Contact me at a@b.com or 555-123-4567'') PNull)
     = Inr (Text ''Contact me at [REDACTED] or [REDACTED]'')"
  by code_simp

text \<open>
  C6. On "123-45-6789" with no pattern specification, \<open>identifySensitiveText\<close> returns
  exactly one match, from the social security pattern, whose text is the whole token;
  the phone pattern before it and the credit card pattern after it match nowhere in
  this input.
\<close>

theorem ssn_example:
  "map_option fst (identifySensitiveText mk module_store (Text ''123-45-6789'') PNull)
   = Some (Inr \<lparr>matches =
                  [\<lparr>match_text = ''123-45-6789'', match_index = 0, match_length = 11,
                    match_pattern = RegExp_toString ssn_pattern\<rparr>],
                count = 1\<rparr>)
   \<and> search (matcher phone_pattern) ''123-45-6789'' 0 = None
   \<and> search (matcher card_pattern) ''123-45-6789'' 0 = None"
  by code_simp

section \<open>Facts about the host operations\<close>

lemma RegExp_exec_None:
  "search (matcher R) S (if global R then lastIndex R else 0) = None \<Longrightarrow>
   RegExp_exec R S = (None, if global R then R\<lparr>lastIndex := 0\<rparr> else R)"
  by (simp add: RegExp_exec_def)

lemma RegExp_exec_local:
  "\<not> global R \<Longrightarrow> snd (RegExp_exec R S) = R"
  by (simp add: RegExp_exec_def split: option.splits)

text \<open>After a replace a global pattern has lastIndex 0; a pattern without g is untouched.\<close>

lemma replace_loop_final:
  "snd (replace_loop R S) = (if global R then R\<lparr>lastIndex := 0\<rparr> else R)"
proof (induction R S rule: replace_loop.induct)
  case (1 rx S)
  show ?case
  proof (cases "RegExp_exec rx S")
    case (Pair res rx')
    show ?thesis
    proof (cases res)
      case None
      with Pair have "rx' = (if global rx then rx\<lparr>lastIndex := 0\<rparr> else rx)"
        by (auto simp: RegExp_exec_def split: option.splits)
      with Pair None show ?thesis by (simp add: replace_loop.simps [of rx S])
    next
      case (Some result)
      show ?thesis
      proof (cases "global rx")
        case False
        with Pair RegExp_exec_local [of rx S] have "rx' = rx" by simp
        with Pair Some False show ?thesis by (simp add: replace_loop.simps [of rx S])
      next
        case True
        define rx'' where "rx'' = (if m_0 result = [] then rx'\<lparr>lastIndex := Suc (lastIndex rx')\<rparr> else rx')"
        from Pair Some have "RegExp_exec rx S = (Some result, rx')" by simp
        from RegExp_exec_global [OF True this]
        have g': "global rx'" and r': "rx' = rx\<lparr>lastIndex := lastIndex rx'\<rparr>" by blast+
        have ih: "snd (replace_loop rx'' S) = (if global rx'' then rx''\<lparr>lastIndex := 0\<rparr> else rx'')"
          using "1.IH" [of res rx' result rx''] Pair Some True rx''_def by simp
        have g'': "global rx''" using g' by (simp add: rx''_def)
        have "rx''\<lparr>lastIndex := 0\<rparr> = rx'\<lparr>lastIndex := 0\<rparr>"
          by (simp add: rx''_def)
        also have "\<dots> = rx\<lparr>lastIndex := 0\<rparr>"
          by (subst r') simp
        finally have "rx''\<lparr>lastIndex := 0\<rparr> = rx\<lparr>lastIndex := 0\<rparr>" .
        with ih g'' have "snd (replace_loop rx'' S) = rx\<lparr>lastIndex := 0\<rparr>" by simp
        with Pair Some True show ?thesis
          by (auto simp: replace_loop.simps [of rx S] rx''_def [symmetric] Let_def split: prod.splits)
      qed
    qed
  qed
qed

lemma String_replace_eq:
  "String_replace S R f =
     (replace_build S f (fst (replace_loop (if global R then R\<lparr>lastIndex := 0\<rparr> else R) S)) [] 0,
      snd (replace_loop (if global R then R\<lparr>lastIndex := 0\<rparr> else R) S))"
  by (simp add: String_replace_def split: prod.splits)

lemma String_replace_final:
  "snd (String_replace S R f) = (if global R then R\<lparr>lastIndex := 0\<rparr> else R)"
  by (cases "global R") (simp_all add: String_replace_eq replace_loop_final)

lemma String_replace_no_match:
  assumes "search (matcher R) S 0 = None"
  shows "fst (String_replace S R f) = S"
proof -
  let ?R0 = "if global R then R\<lparr>lastIndex := 0\<rparr> else R"
  from assms have "search (matcher ?R0) S (if global ?R0 then lastIndex ?R0 else 0) = None"
    by simp
  from RegExp_exec_None [OF this] have "fst (replace_loop ?R0 S) = []"
    by (simp add: replace_loop.simps [of ?R0 S])
  then show ?thesis by (simp add: String_replace_eq)
qed

lemma deref_assign:
  "matcher R = matcher (deref h p) \<Longrightarrow> matcher (deref (assign h p R) q) = matcher (deref h q)"
  by (cases p; cases q) auto

lemma replace_forEach_Cons:
  "replace_forEach f h (p # ps) buf =
     replace_forEach f (assign h p (snd (String_replace buf (deref h p) f))) ps
       (fst (String_replace buf (deref h p) f))"
  by (simp split: prod.splits)

lemma replace_forEach_no_match:
  "\<forall>p\<in>set ps. search (matcher (deref h p)) s 0 = None \<Longrightarrow> fst (replace_forEach f h ps s) = s"
proof (induction ps arbitrary: h)
  case Nil
  show ?case by simp
next
  case (Cons p ps)
  let ?R = "deref h p"
  from Cons.prems have "search (matcher ?R) s 0 = None" by simp
  from String_replace_no_match [OF this] have b: "fst (String_replace s ?R f) = s" .
  let ?R' = "snd (String_replace s ?R f)"
  have m: "matcher ?R' = matcher ?R" by (simp add: String_replace_final)
  have "\<forall>q\<in>set ps. search (matcher (deref (assign h p ?R') q)) s 0 = None"
    using Cons.prems by (simp add: deref_assign [OF m])
  from Cons.IH [OF this] b show ?case by (simp only: replace_forEach_Cons)
qed

lemma redact_Text:
  "redactSensitiveContent mk h (Text s) patterns =
     (case compilePatterns mk patterns of
        Inl err \<Rightarrow> (Inl err, h)
      | Inr ps \<Rightarrow> (Inr (Text (fst (replace_forEach REDACTED h ps s))),
                   snd (replace_forEach REDACTED h ps s)))"
  by (simp add: redactSensitiveContent_def split: sum.splits prod.splits)

lemma preview_Text:
  "previewSensitiveContent mk h (Text s) patterns =
     (case compilePatterns mk patterns of
        Inl err \<Rightarrow> (Inl err, h)
      | Inr ps \<Rightarrow> (Inr (Text (fst (replace_forEach highlight h ps s))),
                   snd (replace_forEach highlight h ps s)))"
  by (simp add: previewSensitiveContent_def split: sum.splits prod.splits)

section \<open>The pattern compiler\<close>

text \<open>
  The sources a specification lists: the elements of an array, the trimmed pieces of a
  string. \<open>compiled_of\<close> is what the callback of \<open>compilePatterns\<close> returns for a source
  when it returns; a source is valid when that is a pattern.
\<close>

fun sources_of :: "pattern_spec \<Rightarrow> pattern_src list" where
  "sources_of PNull = []"
| "sources_of (PString s) = map (\<lambda>p. SrcString (trim p)) (split_comma s)"
| "sources_of (PList srcs) = srcs"
| "sources_of (PRegExp a) = []"

definition compiled_of :: "regexp_constructor \<Rightarrow> pattern_src \<Rightarrow> pat_ref option" where
  "compiled_of mk src = (case compile_source mk src of Inl _ \<Rightarrow> None | Inr r \<Rightarrow> r)"

definition valid_source :: "regexp_constructor \<Rightarrow> pattern_src \<Rightarrow> bool" where
  "valid_source mk src = (compiled_of mk src \<noteq> None)"

lemma set_filter_Boolean: "set (filter_Boolean xs) = {x. Some x \<in> set xs}"
  by (induction xs rule: filter_Boolean.induct) auto

lemma filter_Boolean_map_filter:
  "map Some (filter_Boolean (map f xs)) = map f (filter (\<lambda>x. f x \<noteq> None) xs)"
proof (induction xs)
  case Nil
  show ?case by simp
next
  case (Cons x xs)
  then show ?case by (cases "f x") simp_all
qed

lemma filter_Boolean_all_None:
  "\<forall>x\<in>set xs. f x = None \<Longrightarrow> filter_Boolean (map f xs) = []"
  by (induction xs) simp_all

lemma compile_source_throws: "(compile_source mk src = Inl e) = (src = SrcUnprintable)"
  by (cases src; cases e) (auto split: option.splits)

lemma compile_source_compiled_of:
  "src \<noteq> SrcUnprintable \<Longrightarrow> compile_source mk src = Inr (compiled_of mk src)"
  by (cases src) (auto simp: compiled_of_def split: option.splits)

text \<open>The \<open>map\<close> returns when no element is unprintable, and throws otherwise.\<close>

lemma Array_map_compile:
  "Array_map (compile_source mk) srcs =
     (if SrcUnprintable \<in> set srcs then Inl TypeError else Inr (map (compiled_of mk) srcs))"
proof (induction srcs)
  case Nil
  show ?case by simp
next
  case (Cons src srcs)
  show ?case
  proof (cases "src = SrcUnprintable")
    case True
    then show ?thesis by simp
  next
    case False
    from compile_source_compiled_of [OF this] Cons.IH False show ?thesis by auto
  qed
qed

lemma sources_of_PString_printable: "SrcUnprintable \<notin> set (sources_of (PString s))"
  by auto

lemma compile_source_Shared:
  "compile_source mk src = Inr (Some (Shared a)) \<Longrightarrow> src = SrcRegExp a"
  by (cases src) (auto split: option.splits)

lemma compiled_of_Some:
  "compiled_of mk src = Some p \<Longrightarrow> compile_source mk src = Inr (Some p)"
  by (cases src) (auto simp: compiled_of_def split: option.splits)

lemma compilePatterns_sources:
  "spec \<noteq> PNull \<Longrightarrow> spec \<noteq> PString [] \<Longrightarrow> compilePatterns mk spec = Inr ps \<Longrightarrow>
   ps = filter_Boolean (map (compiled_of mk) (sources_of spec))"
proof (cases spec)
  case (PString s)
  assume "spec \<noteq> PString []" "compilePatterns mk spec = Inr ps"
  with PString Array_map_compile [of mk "sources_of (PString s)"] show ?thesis
    by (auto split: if_splits)
next
  case (PList srcs)
  assume "compilePatterns mk spec = Inr ps"
  with PList Array_map_compile [of mk srcs] show ?thesis
    by (auto split: if_splits)
qed simp_all

lemma split_comma_nonempty: "split_comma s \<noteq> []"
  by (cases s) (auto split: list.splits)

text \<open>
  C2, as amended. \<open>compilePatterns\<close> returns the default list for an absent
  specification and for the empty string. The empty array compiles to the empty list.
  Every entry compiled from a string or an array comes from one of its sources, and
  names an object of the store only where the array itself lists that object: the
  default list is returned for no other specification, an array naming the four default
  objects apart. A RegExp object passed bare makes the call throw a TypeError.
\<close>

theorem compilePatterns_defaults:
  "compilePatterns mk PNull = Inr (map Shared DEFAULT_PATTERNS)
   \<and> compilePatterns mk (PString []) = Inr (map Shared DEFAULT_PATTERNS)
   \<and> compilePatterns mk (PList []) = Inr []
   \<and> compilePatterns mk (PRegExp a) = Inl TypeError
   \<and> (compilePatterns mk spec = Inr (map Shared DEFAULT_PATTERNS) \<longrightarrow>
        spec = PNull \<or> spec = PString []
        \<or> (\<exists>srcs. spec = PList srcs \<and> set (map SrcRegExp DEFAULT_PATTERNS) \<subseteq> set srcs))
   \<and> (spec \<noteq> PNull \<and> spec \<noteq> PString [] \<and> compilePatterns mk spec = Inr ps \<longrightarrow>
        (\<forall>p\<in>set ps. \<exists>src\<in>set (sources_of spec). compile_source mk src = Inr (Some p))
        \<and> (\<forall>b. Shared b \<in> set ps \<longrightarrow> SrcRegExp b \<in> set (sources_of spec)))"
proof -
  have derived: "\<exists>src\<in>set (sources_of spec). compile_source mk src = Inr (Some p)"
    if "spec \<noteq> PNull" "spec \<noteq> PString []" "compilePatterns mk spec = Inr ps" "p \<in> set ps"
    for p ps
  proof -
    from compilePatterns_sources [OF that(1-3)] that(4)
    obtain src where "src \<in> set (sources_of spec)" "compiled_of mk src = Some p"
      by (auto simp: set_filter_Boolean)
    with compiled_of_Some [of mk src p] show ?thesis by blast
  qed
  have shared: "SrcRegExp b \<in> set (sources_of spec)"
    if "spec \<noteq> PNull" "spec \<noteq> PString []" "compilePatterns mk spec = Inr ps" "Shared b \<in> set ps"
    for b ps
    using derived [OF that] compile_source_Shared by blast
  have only_if: "spec = PNull \<or> spec = PString []
        \<or> (\<exists>srcs. spec = PList srcs \<and> set (map SrcRegExp DEFAULT_PATTERNS) \<subseteq> set srcs)"
    if d: "compilePatterns mk spec = Inr (map Shared DEFAULT_PATTERNS)"
  proof (cases "spec = PNull \<or> spec = PString []")
    case True
    then show ?thesis by blast
  next
    case False
    then have n: "spec \<noteq> PNull" "spec \<noteq> PString []" by simp_all
    have all: "SrcRegExp b \<in> set (sources_of spec)" if "b \<in> set DEFAULT_PATTERNS" for b
      using shared [OF n d, of b] that by simp
    show ?thesis
    proof (cases spec)
      case PNull
      with n show ?thesis by simp
    next
      case (PString s)
      from all [of 0] PString show ?thesis by (auto simp: DEFAULT_PATTERNS_def)
    next
      case (PList srcs)
      with all show ?thesis by auto
    next
      case (PRegExp a)
      with d show ?thesis by simp
    qed
  qed
  show ?thesis using derived shared only_if by simp
qed

text \<open>
  The claim as written fails on the empty array: it is not falsy, so the default list is
  not returned for it.
\<close>

theorem compilePatterns_empty_list_counterexample:
  "compilePatterns RegExp_literal (PList []) \<noteq> Inr (map Shared DEFAULT_PATTERNS)"
  by (simp add: DEFAULT_PATTERNS_def)

text \<open>The amended statement at a concrete array with a string, an object and a bad source.\<close>

theorem compilePatterns_defaults_witness:
  "compilePatterns RegExp_literal PNull = Inr (map Shared DEFAULT_PATTERNS)
   \<and> PList [SrcString ''foo'', SrcRegExp 4, SrcString ''(''] \<noteq> PNull
   \<and> PList [SrcString ''foo'', SrcRegExp 4, SrcString ''(''] \<noteq> PString []
   \<and> compilePatterns RegExp_literal (PList [SrcString ''foo'', SrcRegExp 4, SrcString ''(''])
       = Inr [Local \<lparr>source = ''foo'', global = True,
                     matcher = RSeq (RSet [CChar CHR ''f''])
                                (RSeq (RSet [CChar CHR ''o''])
                                (RSeq (RSet [CChar CHR ''o'']) REmpty)),
                     lastIndex = 0\<rparr>,
              Shared 4]
   \<and> SrcRegExp 4 \<in> set (sources_of (PList [SrcString ''foo'', SrcRegExp 4, SrcString ''(''])) 
   \<and> (\<exists>src\<in>set (sources_of (PList [SrcString ''foo'', SrcRegExp 4, SrcString ''(''])).
         compile_source RegExp_literal src = Inr (Some (Shared 4)))"
proof -
  let ?spec = "PList [SrcString ''foo'', SrcRegExp 4, SrcString ''('']"
  let ?ps = "[Local \<lparr>source = ''foo'', global = True,
                     matcher = RSeq (RSet [CChar CHR ''f''])
                                (RSeq (RSet [CChar CHR ''o''])
                                (RSeq (RSet [CChar CHR ''o'']) REmpty)),
                     lastIndex = 0\<rparr>,
              Shared 4]"
  have c: "compilePatterns RegExp_literal ?spec = Inr ?ps"
    by code_simp
  from compilePatterns_defaults [of RegExp_literal 4 ?spec ?ps] c
  show ?thesis by simp
qed

text \<open>
  What the compiler does with an array, or a non-empty string, in which every element
  can be printed: it returns the patterns of the valid sources, in the order of the
  sources, the invalid sources dropped. When every source is invalid the list is empty
  and \<open>identifySensitiveText\<close> returns no match and no error.
\<close>

lemma compilePatterns_drops_printable:
  assumes "spec = PList srcs \<or> (spec = PString s \<and> s \<noteq> [] \<and> srcs = sources_of spec)"
    and "SrcUnprintable \<notin> set srcs"
  shows "(\<exists>ps. compilePatterns mk spec = Inr ps
            \<and> map Some ps = map (compiled_of mk) (filter (valid_source mk) srcs))
      \<and> ((\<forall>src\<in>set srcs. \<not> valid_source mk src) \<longrightarrow>
            compilePatterns mk spec = Inr []
            \<and> identifySensitiveText mk h content spec = Some (Inr \<lparr>matches = [], count = 0\<rparr>, h))"
proof -
  from assms Array_map_compile [of mk srcs]
  have c: "compilePatterns mk spec = Inr (filter_Boolean (map (compiled_of mk) srcs))"
    by auto
  have ord: "map Some (filter_Boolean (map (compiled_of mk) srcs))
             = map (compiled_of mk) (filter (valid_source mk) srcs)"
    unfolding valid_source_def by (rule filter_Boolean_map_filter)
  have none: "compilePatterns mk spec = Inr []
      \<and> identifySensitiveText mk h content spec = Some (Inr \<lparr>matches = [], count = 0\<rparr>, h)"
    if "\<forall>src\<in>set srcs. \<not> valid_source mk src"
  proof -
    from that have "\<forall>src\<in>set srcs. compiled_of mk src = None"
      by (simp add: valid_source_def)
    from filter_Boolean_all_None [OF this] c have "compilePatterns mk spec = Inr []" by simp
    then show ?thesis by (simp add: identifySensitiveText_def)
  qed
  from c ord none show ?thesis by simp
qed


section \<open>Redaction\<close>

text \<open>
  C8. When no compiled pattern matches anywhere in the content (in particular when the
  compiled list is empty), \<open>redactSensitiveContent\<close> returns the content unchanged.
\<close>

theorem redact_without_match:
  "compilePatterns mk patterns = Inr ps \<Longrightarrow>
   \<forall>p\<in>set ps. search (matcher (deref h p)) s 0 = None \<Longrightarrow>
   fst (redactSensitiveContent mk h (Text s) patterns) = Inr (Text s)"
  using replace_forEach_no_match [of ps h s REDACTED]
  by (simp add: redact_Text)

text \<open>None of the default patterns matches in this paragraph, and it is returned as it is.\<close>

theorem redact_without_match_witness:
  "compilePatterns RegExp_literal PNull = Inr (map Shared DEFAULT_PATTERNS)
   \<and> list_all (\<lambda>p. search (matcher (deref module_store p)) ''<p>Hello, world</p>'' 0 = None)
        (map Shared DEFAULT_PATTERNS)
   \<and> fst (redactSensitiveContent RegExp_literal module_store (Text ''<p>Hello, world</p>'') PNull)
     = Inr (Text ''<p>Hello, world</p>'')"
proof -
  have n: "list_all (\<lambda>p. search (matcher (deref module_store p)) ''<p>Hello, world</p>'' 0 = None)
        (map Shared DEFAULT_PATTERNS)"
    by code_simp
  then have "\<forall>p\<in>set (map Shared DEFAULT_PATTERNS).
     search (matcher (deref module_store p)) ''<p>Hello, world</p>'' 0 = None"
    by (simp only: list_all_iff)
  from redact_without_match [OF _ this, of RegExp_literal PNull] n
  show ?thesis by simp
qed

section \<open>The scan loop of identifySensitiveText\<close>

lemma search_hd:
  "search r s i = Some (j, e) \<Longrightarrow> j \<le> length s \<and> (\<exists>es. ends r s j = e # es)"
proof (induction r s i rule: search.induct)
  case (1 r s i)
  show ?case
  proof (cases "length s < i")
    case True
    with "1.prems" show ?thesis by (simp add: search.simps)
  next
    case False
    show ?thesis
    proof (cases "ends r s i")
      case Nil
      with False "1.prems" have "search r s (Suc i) = Some (j, e)"
        by (simp add: search.simps [of r s i])
      from "1.IH" [OF False Nil this] show ?thesis .
    next
      case (Cons e' es)
      with False "1.prems" have "j = i" "e = e'"
        by (simp_all add: search.simps [of r s i])
      with Cons False show ?thesis by simp
    qed
  qed
qed

text \<open>
  The matches the loop of lines 55 to 62 reports for a global pattern that starts at
  position \<open>i\<close>, as pairs of start and end: \<open>None\<close> when one of them is empty.
  \<open>exec\<close> stores the end of a match in \<open>lastIndex\<close>, and the loop does nothing else to
  it, so after an empty match the next call finds the same match again.
\<close>

function global_scan :: "regex \<Rightarrow> string \<Rightarrow> nat \<Rightarrow> (nat \<times> nat) list option" where
  "global_scan r s i =
     (case search r s i of
        None \<Rightarrow> Some []
      | Some (j, e) \<Rightarrow>
          if e \<le> j then None
          else map_option ((#) (j, e)) (global_scan r s e))"
  by pat_completeness auto
termination
proof (relation "measure (\<lambda>(r, s, i). length s - i)")
  show "wf (measure (\<lambda>(r, s, i). length s - i))" by simp
next
  fix r s i x2 j e
  assume "search r s i = Some x2" "(j, e) = x2" "\<not> e \<le> j"
  then have "search r s i = Some (j, e)" "j < e" by simp_all
  with search_range [of r s i j e] have "i < e" "e \<le> length s" by simp_all
  then show "((r, s, e), (r, s, i)) \<in> measure (\<lambda>(r, s, i). length s - i)" by simp
qed

declare global_scan.simps [simp del]

definition pattern_scan :: "regexp \<Rightarrow> string \<Rightarrow> (nat \<times> nat) list option" where
  "pattern_scan R s =
     (if global R then global_scan (matcher R) s (lastIndex R)
      else case search (matcher R) s 0 of None \<Rightarrow> Some [] | Some _ \<Rightarrow> None)"

definition to_match :: "regexp \<Rightarrow> string \<Rightarrow> nat \<times> nat \<Rightarrow> js_match" where
  "to_match R s span =
     \<lparr>match_text = take (snd span - fst span) (drop (fst span) s), match_index = fst span,
      match_length = snd span - fst span, match_pattern = RegExp_toString R\<rparr>"

text \<open>
  A pattern on which \<open>exec\<close> returns the same match again and again: a global pattern
  whose next match is empty, a pattern without \<open>g\<close> that matches at all.
\<close>

definition rescans :: "regexp \<Rightarrow> string \<Rightarrow> bool" where
  "rescans R s =
     (if global R
      then (case search (matcher R) s (lastIndex R) of None \<Rightarrow> False | Some (j, e) \<Rightarrow> e = j)
      else search (matcher R) s 0 \<noteq> None)"

lemma rescans_exec:
  assumes "rescans R s"
  shows "\<exists>m R'. RegExp_exec R s = (Some m, R') \<and> rescans R' s"
proof (cases "global R")
  case True
  with assms obtain j where j: "search (matcher R) s (lastIndex R) = Some (j, j)"
    by (auto simp: rescans_def split: option.splits)
  let ?R' = "R\<lparr>lastIndex := j\<rparr>"
  from j True have "RegExp_exec R s = (Some \<lparr>m_index = j, m_0 = take (j - j) (drop j s)\<rparr>, ?R')"
    by (simp add: RegExp_exec_def)
  moreover from search_again [OF j] True have "rescans ?R' s"
    by (simp add: rescans_def)
  ultimately show ?thesis by blast
next
  case False
  with assms obtain j e where j: "search (matcher R) s 0 = Some (j, e)"
    by (auto simp: rescans_def)
  with False have "RegExp_exec R s = (Some \<lparr>m_index = j, m_0 = take (e - j) (drop j s)\<rparr>, R)"
    by (simp add: RegExp_exec_def)
  with assms show ?thesis by blast
qed

lemma exec_while_stuck:
  assumes "exec_while R s ms = Some y"
  shows "\<not> rescans R s"
proof (rule exec_while.raw_induct [where P = "\<lambda>R s ms y. \<not> rescans R s", OF _ assms])
  fix exec_while' pattern content ms y
  assume IH: "\<And>p c m y. exec_while' p c m = Some y \<Longrightarrow> \<not> rescans p c"
    and body: "(case RegExp_exec pattern content of
      (None, pattern') \<Rightarrow> Some (ms, pattern')
      | (Some match, pattern') \<Rightarrow>
          exec_while' pattern' content
           (ms @
            [\<lparr>match_text = m_0 match, match_index = m_index match,
                match_length = length (m_0 match),
                match_pattern = RegExp_toString pattern'\<rparr>])) = Some y"
  show "\<not> rescans pattern content"
  proof
    assume "rescans pattern content"
    from rescans_exec [OF this] obtain m R' where
      ex: "RegExp_exec pattern content = (Some m, R')" and r: "rescans R' content" by blast
    from body ex obtain ms' where "exec_while' R' content ms' = Some y" by simp
    from IH [OF this] r show False by simp
  qed
qed

lemma rescans_diverges: "rescans R s \<Longrightarrow> exec_while R s ms = None"
  using exec_while_stuck [of R s ms] by (cases "exec_while R s ms") auto

lemma exec_while_global:
  "global R \<Longrightarrow> matcher R = r \<Longrightarrow> lastIndex R = i \<Longrightarrow>
   exec_while R s ms =
     map_option (\<lambda>spans. (ms @ map (to_match R s) spans, R\<lparr>lastIndex := 0\<rparr>)) (global_scan r s i)"
proof (induction r s i arbitrary: R ms rule: global_scan.induct)
  case (1 r s i)
  note g = "1.prems"(1) and m = "1.prems"(2) and l = "1.prems"(3)
  show ?case
  proof (cases "search r s i")
    case None
    with g m l have "RegExp_exec R s = (None, R\<lparr>lastIndex := 0\<rparr>)"
      by (simp add: RegExp_exec_def)
    with None show ?thesis
      by (simp add: exec_while.simps [of R s ms] global_scan.simps [of r s i])
  next
    case (Some a)
    obtain j e where a: "a = (j, e)" by (cases a)
    with Some have se: "search r s i = Some (j, e)" by simp
    from search_range [OF se] have range: "i \<le> j" "j \<le> e" "e \<le> length s" by simp_all
    show ?thesis
    proof (cases "e \<le> j")
      case True
      with range have "e = j" by simp
      with se g m l have "rescans R s" by (simp add: rescans_def)
      then have "exec_while R s ms = None" by (rule rescans_diverges)
      with se True show ?thesis by (simp add: global_scan.simps [of r s i])
    next
      case False
      let ?R' = "R\<lparr>lastIndex := e\<rparr>"
      from se g m l have ex: "RegExp_exec R s
          = (Some \<lparr>m_index = j, m_0 = take (e - j) (drop j s)\<rparr>, ?R')"
        by (simp add: RegExp_exec_def)
      from range have len: "length (take (e - j) (drop j s)) = e - j" by simp
      have ih: "exec_while ?R' s (ms @ [to_match R s (j, e)])
          = map_option (\<lambda>spans. ((ms @ [to_match R s (j, e)]) @ map (to_match ?R' s) spans,
                                  ?R'\<lparr>lastIndex := 0\<rparr>)) (global_scan r s e)"
        using "1.IH" [OF se refl False, of ?R' "ms @ [to_match R s (j, e)]"] g m
        by simp
      have ts: "to_match ?R' s = to_match R s"
        by (rule ext) (simp add: to_match_def RegExp_toString_def)
      have "exec_while R s ms = exec_while ?R' s (ms @ [to_match R s (j, e)])"
        using ex len
        by (simp add: exec_while.simps [of R s ms] to_match_def RegExp_toString_def)
      with ih ts se False show ?thesis
        by (simp add: global_scan.simps [of r s i] option.map_comp comp_def)
    qed
  qed
qed

lemma exec_while_local:
  assumes "\<not> global R"
  shows "exec_while R s ms =
     (case search (matcher R) s 0 of None \<Rightarrow> Some (ms, R) | Some _ \<Rightarrow> None)"
proof (cases "search (matcher R) s 0")
  case None
  with assms have "RegExp_exec R s = (None, R)" by (simp add: RegExp_exec_def)
  with None show ?thesis by (simp add: exec_while.simps [of R s ms])
next
  case (Some a)
  with assms have "rescans R s" by (simp add: rescans_def)
  then have "exec_while R s ms = None" by (rule rescans_diverges)
  with Some show ?thesis by simp
qed

text \<open>The loop of one pattern, in closed form.\<close>

lemma exec_while_scan:
  "exec_while R s ms =
     map_option (\<lambda>spans. (ms @ map (to_match R s) spans,
                            if global R then R\<lparr>lastIndex := 0\<rparr> else R))
       (pattern_scan R s)"
proof (cases "global R")
  case True
  with exec_while_global [OF True refl refl, of s ms] show ?thesis
    by (simp add: pattern_scan_def)
next
  case False
  with exec_while_local [OF False, of s ms] show ?thesis
    by (simp add: pattern_scan_def split: option.splits)
qed

text \<open>
  C3. The claim asks that \<open>identifySensitiveText\<close> terminates for every pattern, also
  one that matches the empty string. It does not: for the pattern specification
  \<open>' '\<close>, whose one source is the empty pattern after \<open>trim\<close>, the call does not
  return on the content "abc".
\<close>

theorem identify_empty_pattern_loops:
  "identifySensitiveText RegExp_literal module_store (Text ''abc'') (PString '' '') = None"
proof -
  let ?R = "\<lparr>source = ''(?:)'', global = True, matcher = REmpty, lastIndex = 0\<rparr>"
  have c: "compilePatterns RegExp_literal (PString '' '') = Inr [Local ?R]"
    by code_simp
  have "rescans ?R ''abc''"
    by code_simp
  then have "exec_while ?R ''abc'' [] = None"
    by (rule rescans_diverges)
  with c show ?thesis
    by (simp add: identifySensitiveText_def)
qed

section \<open>Content that is not text\<close>

definition non_text :: "js_value \<Rightarrow> bool" where
  "non_text content = (case content of Text _ \<Rightarrow> False | _ \<Rightarrow> True)"

text \<open>
  C5, as amended. No operation checks the content. \<open>identifySensitiveText\<close> treats a
  content that is not text as its string form. \<open>previewSensitiveContent\<close> returns it
  unchanged when the compiled list is empty and throws a TypeError otherwise;
  \<open>redactSensitiveContent\<close> throws a TypeError on \<open>null\<close> and \<open>undefined\<close>, and
  behaves like preview on a boolean. The only error of the module is TypeError.
\<close>

theorem non_text_content:
  "non_text content \<Longrightarrow>
   identifySensitiveText mk h content patterns
     = identifySensitiveText mk h (Text (ToString content)) patterns
   \<and> (compilePatterns mk patterns = Inr ps \<longrightarrow>
        previewSensitiveContent mk h content patterns
          = (if ps = [] then Inr content else Inl TypeError, h)
        \<and> redactSensitiveContent mk h content patterns
          = (if content = Null \<or> content = Undefined then Inl TypeError
             else if ps = [] then Inr content else Inl TypeError, h))
   \<and> (compilePatterns mk patterns = Inl TypeError \<longrightarrow>
        previewSensitiveContent mk h content patterns = (Inl TypeError, h)
        \<and> redactSensitiveContent mk h content patterns = (Inl TypeError, h))"
proof -
  assume n: "non_text content"
  have "identifySensitiveText mk h content patterns
     = identifySensitiveText mk h (Text (ToString content)) patterns"
    by (simp add: identifySensitiveText_def split: sum.splits)
  moreover from n have "compilePatterns mk patterns = Inr ps \<longrightarrow>
        previewSensitiveContent mk h content patterns
          = (if ps = [] then Inr content else Inl TypeError, h)
        \<and> redactSensitiveContent mk h content patterns
          = (if content = Null \<or> content = Undefined then Inl TypeError
             else if ps = [] then Inr content else Inl TypeError, h)"
    by (cases content)
       (simp_all add: non_text_def previewSensitiveContent_def redactSensitiveContent_def)
  moreover from n have "compilePatterns mk patterns = Inl TypeError \<longrightarrow>
        previewSensitiveContent mk h content patterns = (Inl TypeError, h)
        \<and> redactSensitiveContent mk h content patterns = (Inl TypeError, h)"
    by (cases content)
       (simp_all add: non_text_def previewSensitiveContent_def redactSensitiveContent_def)
  ultimately show ?thesis by blast
qed

text \<open>
  The claim as written fails: on \<open>null\<close> with the default patterns
  \<open>identifySensitiveText\<close> returns a result with no match, and with an empty array
  preview and redact return the content.
\<close>

theorem non_text_content_counterexample:
  "map_option fst (identifySensitiveText RegExp_literal module_store Null PNull)
     = Some (Inr \<lparr>matches = [], count = 0\<rparr>)
   \<and> fst (previewSensitiveContent RegExp_literal module_store Undefined (PList [])) = Inr Undefined
   \<and> fst (redactSensitiveContent RegExp_literal module_store (Boolean True) (PList []))
     = Inr (Boolean True)"
  by code_simp

text \<open>The amended statement on \<open>null\<close> and on \<open>false\<close>.\<close>

theorem non_text_content_witness:
  "non_text Null \<and> non_text (Boolean False)
   \<and> compilePatterns RegExp_literal PNull = Inr (map Shared DEFAULT_PATTERNS)
   \<and> compilePatterns RegExp_literal (PList []) = Inr []
   \<and> compilePatterns RegExp_literal (PRegExp 4) = Inl TypeError
   \<and> previewSensitiveContent RegExp_literal module_store Null PNull = (Inl TypeError, module_store)
   \<and> redactSensitiveContent RegExp_literal module_store Null PNull = (Inl TypeError, module_store)
   \<and> previewSensitiveContent RegExp_literal module_store (Boolean False) (PList [])
       = (Inr (Boolean False), module_store)
   \<and> redactSensitiveContent RegExp_literal module_store (Boolean False) (PList [])
       = (Inr (Boolean False), module_store)
   \<and> previewSensitiveContent RegExp_literal module_store (Boolean False) (PRegExp 4)
       = (Inl TypeError, module_store)
   \<and> identifySensitiveText RegExp_literal module_store Null PNull
       = identifySensitiveText RegExp_literal module_store (Text ''null'') PNull"
  using non_text_content [of Null RegExp_literal module_store PNull "map Shared DEFAULT_PATTERNS"]
    non_text_content [of "Boolean False" RegExp_literal module_store "PList []" "[]"]
    non_text_content [of "Boolean False" RegExp_literal module_store "PRegExp 4" "[]"]
  by (simp add: non_text_def DEFAULT_PATTERNS_def)

section \<open>The order of the matches\<close>

text \<open>
  The standard scan of a global pattern from position \<open>i\<close>: each match is the first one
  at or after the end of the one before, none is empty, and after the last there is no
  further match. The list of these matches is determined by the pattern, the content
  and \<open>i\<close>.
\<close>

fun successive :: "regex \<Rightarrow> string \<Rightarrow> nat \<Rightarrow> (nat \<times> nat) list \<Rightarrow> bool" where
  "successive r s i [] = (search r s i = None)"
| "successive r s i ((j, e) # spans) =
     (search r s i = Some (j, e) \<and> j < e \<and> successive r s e spans)"

text \<open>
  All the matches that the loop of lines 55 to 62 can report for a pattern object in
  the state \<open>R\<close>: the standard scan from its \<open>lastIndex\<close> when it is global; when it
  is not, no match at all, and only if the pattern matches nowhere in the content.
\<close>

definition full_scan :: "regexp \<Rightarrow> string \<Rightarrow> (nat \<times> nat) list \<Rightarrow> bool" where
  "full_scan R s spans =
     (if global R then successive (matcher R) s (lastIndex R) spans
      else spans = [] \<and> search (matcher R) s 0 = None)"

text \<open>
  The object a reference of the compiled list stands for when its turn comes, \<open>before\<close>
  being the references before it in the list: an object of the store that is global
  and that an earlier reference names has \<open>lastIndex\<close> 0 by then; every other object is
  as it was when the call began. For the default patterns of \<open>module_store\<close> and for
  the patterns compiled from strings that is \<open>lastIndex\<close> 0 in every case.
\<close>

fun at_turn :: "store \<Rightarrow> pat_ref list \<Rightarrow> pat_ref \<Rightarrow> regexp" where
  "at_turn h before (Local R) = R"
| "at_turn h before (Shared a) =
     (if Shared a \<in> set before \<and> global (h a) then (h a)\<lparr>lastIndex := 0\<rparr> else h a)"

definition no_empty_match :: "regex \<Rightarrow> string \<Rightarrow> bool" where
  "no_empty_match r s =
     list_all (\<lambda>i. case ends r s i of [] \<Rightarrow> True | e # _ \<Rightarrow> e \<noteq> i) [0..<Suc (length s)]"

definition pat_eq :: "regexp \<Rightarrow> regexp \<Rightarrow> bool" where
  "pat_eq R R' = (source R = source R' \<and> global R = global R' \<and> matcher R = matcher R')"

lemma global_scan_successive:
  "global_scan r s i = Some spans \<Longrightarrow> successive r s i spans"
proof (induction r s i arbitrary: spans rule: global_scan.induct)
  case (1 r s i)
  show ?case
  proof (cases "search r s i")
    case None
    with "1.prems" show ?thesis by (simp add: global_scan.simps [of r s i])
  next
    case (Some a)
    obtain j e where a: "a = (j, e)" by (cases a)
    with Some have se: "search r s i = Some (j, e)" by simp
    with "1.prems" have ne: "\<not> e \<le> j"
      by (auto simp: global_scan.simps [of r s i] split: if_splits)
    with se "1.prems" obtain rest where rest: "global_scan r s e = Some rest"
      and spans: "spans = (j, e) # rest"
      by (auto simp: global_scan.simps [of r s i])
    from "1.IH" [OF se refl ne rest] se ne spans show ?thesis by simp
  qed
qed

lemma successive_global_scan:
  "successive r s i spans \<Longrightarrow> global_scan r s i = Some spans"
proof (induction spans arbitrary: i)
  case Nil
  then show ?case by (simp add: global_scan.simps [of r s i])
next
  case (Cons a spans)
  obtain j e where a: "a = (j, e)" by (cases a)
  with Cons.prems have se: "search r s i = Some (j, e)" and je: "j < e"
    and rest: "successive r s e spans" by simp_all
  from Cons.IH [OF rest] se je a show ?case by (simp add: global_scan.simps [of r s i])
qed

lemma pattern_scan_full_scan: "(pattern_scan R s = Some spans) = full_scan R s spans"
proof (cases "global R")
  case True
  with global_scan_successive [of "matcher R" s "lastIndex R" spans]
    successive_global_scan [of "matcher R" s "lastIndex R" spans]
  show ?thesis by (auto simp: pattern_scan_def full_scan_def)
next
  case False
  then show ?thesis by (auto simp: pattern_scan_def full_scan_def split: option.splits)
qed

lemma successive_ascending:
  "successive r s i spans \<Longrightarrow>
   sorted_wrt (\<lambda>a b. snd a \<le> fst b) spans
   \<and> (\<forall>a\<in>set spans. i \<le> fst a \<and> fst a < snd a \<and> snd a \<le> length s)"
proof (induction spans arbitrary: i)
  case Nil
  show ?case by simp
next
  case (Cons a spans)
  obtain j e where a: "a = (j, e)" by (cases a)
  with Cons.prems have se: "search r s i = Some (j, e)" and je: "j < e"
    and rest: "successive r s e spans" by simp_all
  from search_range [OF se] have r: "i \<le> j" "e \<le> length s" by simp_all
  from Cons.IH [OF rest] have srt: "sorted_wrt (\<lambda>a b. snd a \<le> fst b) spans"
    and all: "\<forall>b\<in>set spans. e \<le> fst b \<and> fst b < snd b \<and> snd b \<le> length s" by simp_all
  from all je r have "\<forall>b\<in>set spans. i \<le> fst b \<and> fst b < snd b \<and> snd b \<le> length s"
    by fastforce
  with srt all a je r show ?case by auto
qed

lemma full_scan_ascending:
  assumes "full_scan R s spans"
  shows "sorted_wrt (\<lambda>a b. snd a \<le> fst b) spans
     \<and> (\<forall>a\<in>set spans. fst a < snd a \<and> snd a \<le> length s)"
proof (cases "global R")
  case True
  with assms successive_ascending [of "matcher R" s "lastIndex R" spans] show ?thesis
    by (simp add: full_scan_def)
next
  case False
  with assms show ?thesis by (simp add: full_scan_def)
qed

lemma to_match_ascending:
  assumes "sorted_wrt (\<lambda>a b. snd a \<le> fst b) spans"
    and "\<forall>a\<in>set spans. fst a < snd a \<and> snd a \<le> length s"
  shows "sorted_wrt (\<lambda>m m'. match_index m + match_length m \<le> match_index m')
           (map (to_match R s) spans)
    \<and> (\<forall>m\<in>set (map (to_match R s) spans).
          0 < match_length m \<and> match_index m + match_length m \<le> length s
          \<and> match_text m = take (match_length m) (drop (match_index m) s)
          \<and> match_pattern m = RegExp_toString R)"
proof -
  have "sorted_wrt (\<lambda>m m'. match_index m + match_length m \<le> match_index m')
          (map (to_match R s) spans)"
    unfolding sorted_wrt_map
  proof (rule sorted_wrt_mono_rel [OF _ assms(1)])
    fix a b assume "a \<in> set spans" "b \<in> set spans" "snd a \<le> fst b"
    with assms(2) show "match_index (to_match R s a) + match_length (to_match R s a)
        \<le> match_index (to_match R s b)"
      by (auto simp: to_match_def)
  qed
  moreover have "\<forall>m\<in>set (map (to_match R s) spans).
          0 < match_length m \<and> match_index m + match_length m \<le> length s
          \<and> match_text m = take (match_length m) (drop (match_index m) s)
          \<and> match_pattern m = RegExp_toString R"
    using assms(2) by (auto simp: to_match_def)
  ultimately show ?thesis by blast
qed

lemma deref_assign_cases:
  "deref (assign h p R') q = deref h q \<or> (q = p \<and> deref (assign h p R') q = R')"
  by (cases p; cases q) auto

lemma pat_eq_assign:
  assumes "pat_eq R' (deref h p)" and "\<forall>q. pat_eq (deref h q) (deref h0 q)"
  shows "pat_eq (deref (assign h p R') q) (deref h0 q)"
proof -
  from assms(2) have a: "pat_eq (deref h q) (deref h0 q)" and b: "pat_eq (deref h p) (deref h0 p)"
    by simp_all
  from deref_assign_cases [of h p R' q] show ?thesis
  proof
    assume "deref (assign h p R') q = deref h q"
    with a show ?thesis by simp
  next
    assume c: "q = p \<and> deref (assign h p R') q = R'"
    from c have e: "deref (assign h p R') q = R'" by (rule conjunct2)
    from c have qp: "q = p" by (rule conjunct1)
    from assms(1) b have "pat_eq R' (deref h0 p)" by (simp add: pat_eq_def)
    with e qp show ?thesis by simp
  qed
qed

lemma to_match_pat_eq: "pat_eq R R' \<Longrightarrow> to_match R s = to_match R' s"
  by (rule ext) (simp add: pat_eq_def to_match_def RegExp_toString_def)

lemma identify_forEach_Cons:
  "identify_forEach h (p # ps) s ms0 =
     (case pattern_scan (deref h p) s of
        None \<Rightarrow> None
      | Some spans \<Rightarrow>
          identify_forEach
            (assign h p (if global (deref h p) then (deref h p)\<lparr>lastIndex := 0\<rparr> else deref h p))
            ps s (ms0 @ map (to_match (deref h p) s) spans))"
  by (simp add: exec_while_scan split: option.splits)

text \<open>
  The store when the references \<open>before\<close> have had their turn, and the whole loop of
  lines 53 to 63 in closed form: the groups of matches, one for each reference.
\<close>

definition store_after :: "store \<Rightarrow> pat_ref list \<Rightarrow> store" where
  "store_after h before a =
     (if Shared a \<in> set before \<and> global (h a) then (h a)\<lparr>lastIndex := 0\<rparr> else h a)"

fun scan_groups ::
  "store \<Rightarrow> pat_ref list \<Rightarrow> pat_ref list \<Rightarrow> string \<Rightarrow> js_match list list option" where
  "scan_groups h before [] s = Some []"
| "scan_groups h before (p # ps) s =
     (case pattern_scan (at_turn h before p) s of
        None \<Rightarrow> None
      | Some spans \<Rightarrow>
          map_option ((#) (map (to_match (deref h p) s) spans))
            (scan_groups h (before @ [p]) ps s))"

lemma deref_store_after: "deref (store_after h before) p = at_turn h before p"
  by (cases p) (simp_all add: store_after_def)

lemma at_turn_pat_eq: "pat_eq (at_turn h before p) (deref h p)"
  by (cases p) (simp_all add: pat_eq_def)

lemma store_after_step:
  "assign (store_after h before) p
     (if global (at_turn h before p) then (at_turn h before p)\<lparr>lastIndex := 0\<rparr>
      else at_turn h before p)
   = store_after h (before @ [p])"
proof (cases p)
  case (Local R)
  then show ?thesis by (simp add: store_after_def fun_eq_iff)
next
  case (Shared a)
  show ?thesis
  proof (rule ext)
    fix b
    show "assign (store_after h before) p
            (if global (at_turn h before p) then (at_turn h before p)\<lparr>lastIndex := 0\<rparr>
             else at_turn h before p) b
          = store_after h (before @ [p]) b"
      using Shared by (cases "b = a") (auto simp: store_after_def)
  qed
qed

lemma identify_forEach_scan_groups:
  "identify_forEach (store_after h before) ps s ms =
     (case scan_groups h before ps s of
        None \<Rightarrow> None
      | Some groups \<Rightarrow> Some (ms @ concat groups, store_after h (before @ ps)))"
proof (induction ps arbitrary: before ms)
  case Nil
  show ?case by simp
next
  case (Cons p ps)
  show ?case
  proof (cases "pattern_scan (at_turn h before p) s")
    case None
    then show ?thesis
      by (simp only: identify_forEach_Cons deref_store_after scan_groups.simps option.case)
  next
    case (Some spans)
    have tm: "to_match (at_turn h before p) s = to_match (deref h p) s"
      by (rule to_match_pat_eq) (rule at_turn_pat_eq)
    have "identify_forEach (store_after h before) (p # ps) s ms
        = identify_forEach (store_after h (before @ [p])) ps s
            (ms @ map (to_match (deref h p) s) spans)"
      using Some
      by (simp only: identify_forEach_Cons deref_store_after option.case store_after_step tm)
    also have "\<dots> = (case scan_groups h (before @ [p]) ps s of
        None \<Rightarrow> None
      | Some groups \<Rightarrow>
          Some ((ms @ map (to_match (deref h p) s) spans) @ concat groups,
                store_after h ((before @ [p]) @ ps)))"
      by (rule Cons.IH)
    finally show ?thesis using Some
      by (cases "scan_groups h (before @ [p]) ps s") simp_all
  qed
qed

lemma store_after_Nil: "store_after h [] = h"
  by (rule ext) (simp add: store_after_def)

text \<open>What the groups of the closed form are.\<close>

lemma scan_groups_meaning:
  "(scan_groups h before ps s = Some groups) =
     (length groups = length ps
      \<and> (\<forall>k<length ps. \<exists>spans.
             full_scan (at_turn h (before @ take k ps) (ps ! k)) s spans
             \<and> groups ! k = map (to_match (deref h (ps ! k)) s) spans))"
proof (induction ps arbitrary: before groups)
  case Nil
  show ?case by auto
next
  case (Cons p ps)
  show ?case
  proof
    assume a: "scan_groups h before (p # ps) s = Some groups"
    then obtain spans rest where sp: "pattern_scan (at_turn h before p) s = Some spans"
      and rest: "scan_groups h (before @ [p]) ps s = Some rest"
      and g: "groups = map (to_match (deref h p) s) spans # rest"
      by (auto split: option.splits)
    from rest Cons.IH [of "before @ [p]" rest]
    have len: "length rest = length ps"
      and all: "\<forall>k<length ps. \<exists>spans.
             full_scan (at_turn h ((before @ [p]) @ take k ps) (ps ! k)) s spans
             \<and> rest ! k = map (to_match (deref h (ps ! k)) s) spans"
      by simp_all
    have "\<exists>spans. full_scan (at_turn h (before @ take k (p # ps)) ((p # ps) ! k)) s spans
             \<and> groups ! k = map (to_match (deref h ((p # ps) ! k)) s) spans"
      if "k < length (p # ps)" for k
    proof (cases k)
      case 0
      with sp g show ?thesis by (auto simp: pattern_scan_full_scan)
    next
      case (Suc k')
      with that have "k' < length ps" by simp
      with all Suc g show ?thesis by simp
    qed
    with len g show "length groups = length (p # ps)
      \<and> (\<forall>k<length (p # ps). \<exists>spans.
             full_scan (at_turn h (before @ take k (p # ps)) ((p # ps) ! k)) s spans
             \<and> groups ! k = map (to_match (deref h ((p # ps) ! k)) s) spans)"
      by simp
  next
    assume b: "length groups = length (p # ps)
      \<and> (\<forall>k<length (p # ps). \<exists>spans.
             full_scan (at_turn h (before @ take k (p # ps)) ((p # ps) ! k)) s spans
             \<and> groups ! k = map (to_match (deref h ((p # ps) ! k)) s) spans)"
    then obtain g rest where g: "groups = g # rest" and len: "length rest = length ps"
      by (cases groups) auto
    from b have "\<exists>spans. full_scan (at_turn h (before @ take 0 (p # ps)) ((p # ps) ! 0)) s spans
             \<and> groups ! 0 = map (to_match (deref h ((p # ps) ! 0)) s) spans"
      by blast
    with g obtain spans where sp: "pattern_scan (at_turn h before p) s = Some spans"
      and g0: "g = map (to_match (deref h p) s) spans"
      by (auto simp: pattern_scan_full_scan)
    have "\<exists>spans. full_scan (at_turn h ((before @ [p]) @ take k ps) (ps ! k)) s spans
             \<and> rest ! k = map (to_match (deref h (ps ! k)) s) spans"
      if "k < length ps" for k
    proof -
      from that have "Suc k < length (p # ps)" by simp
      with b have "\<exists>spans. full_scan (at_turn h (before @ take (Suc k) (p # ps)) ((p # ps) ! Suc k)) s spans
             \<and> groups ! Suc k = map (to_match (deref h ((p # ps) ! Suc k)) s) spans"
        by blast
      with g show ?thesis by simp
    qed
    with len Cons.IH [of "before @ [p]" rest]
    have "scan_groups h (before @ [p]) ps s = Some rest" by simp
    with sp g g0 show "scan_groups h before (p # ps) s = Some groups" by simp
  qed
qed

lemma no_empty_match_scan:
  "no_empty_match r s \<Longrightarrow> \<exists>spans. global_scan r s i = Some spans"
proof (induction r s i rule: global_scan.induct)
  case (1 r s i)
  show ?case
  proof (cases "search r s i")
    case None
    then show ?thesis by (simp add: global_scan.simps [of r s i])
  next
    case (Some a)
    obtain j e where a: "a = (j, e)" by (cases a)
    with Some have se: "search r s i = Some (j, e)" by simp
    from search_hd [OF se] obtain es where j: "j \<le> length s" and en: "ends r s j = e # es"
      by blast
    from "1.prems" have "\<forall>i\<in>set [0..<Suc (length s)]. case ends r s i of [] \<Rightarrow> True | e # _ \<Rightarrow> e \<noteq> i"
      by (simp only: no_empty_match_def list_all_iff)
    moreover from j have "j \<in> set [0..<Suc (length s)]" by auto
    ultimately have "case ends r s j of [] \<Rightarrow> True | e # _ \<Rightarrow> e \<noteq> j"
      by blast
    with en have "e \<noteq> j" by simp
    with search_range [OF se] have ne: "\<not> e \<le> j" by simp
    from "1.IH" [OF se refl ne "1.prems"] obtain rest where "global_scan r s e = Some rest"
      by blast
    with se ne show ?thesis by (simp add: global_scan.simps [of r s i])
  qed
qed

lemma identify_forEach_returns:
  "\<forall>p\<in>set ps. global (deref h p) \<and> no_empty_match (matcher (deref h p)) s \<Longrightarrow>
   \<exists>ms h'. identify_forEach h ps s ms0 = Some (ms, h')"
proof (induction ps arbitrary: h ms0)
  case Nil
  show ?case by simp
next
  case (Cons p ps)
  let ?R = "deref h p"
  let ?R' = "if global ?R then ?R\<lparr>lastIndex := 0\<rparr> else ?R"
  from Cons.prems have g: "global ?R" and n: "no_empty_match (matcher ?R) s" by simp_all
  from no_empty_match_scan [OF n, of "lastIndex ?R"] g
  obtain spans where sc: "pattern_scan ?R s = Some spans"
    by (auto simp: pattern_scan_def)
  have "\<forall>q\<in>set ps. global (deref (assign h p ?R') q)
          \<and> no_empty_match (matcher (deref (assign h p ?R') q)) s"
  proof
    fix q assume q: "q \<in> set ps"
    with Cons.prems have "global (deref h q) \<and> no_empty_match (matcher (deref h q)) s" by simp
    with g n deref_assign_cases [of h p ?R' q]
    show "global (deref (assign h p ?R') q)
          \<and> no_empty_match (matcher (deref (assign h p ?R') q)) s"
      by auto
  qed
  from Cons.IH [OF this] sc show ?case
    by (simp only: identify_forEach_Cons option.case)
qed


lemma scan_groups_returns:
  "(\<exists>groups. scan_groups h before ps s = Some groups) =
     (\<forall>k<length ps. \<exists>spans. full_scan (at_turn h (before @ take k ps) (ps ! k)) s spans)"
proof (induction ps arbitrary: before)
  case Nil
  show ?case by simp
next
  case (Cons p ps)
  have split: "(\<forall>k<length (p # ps). P k) = (P 0 \<and> (\<forall>k<length ps. P (Suc k)))" for P
    by (auto simp: less_Suc_eq_0_disj)
  have "(\<exists>groups. scan_groups h before (p # ps) s = Some groups) =
          ((\<exists>spans. pattern_scan (at_turn h before p) s = Some spans)
           \<and> (\<exists>rest. scan_groups h (before @ [p]) ps s = Some rest))"
    by (auto split: option.splits)
  also have "\<dots> = ((\<exists>spans. full_scan (at_turn h before p) s spans)
           \<and> (\<forall>k<length ps. \<exists>spans.
                 full_scan (at_turn h ((before @ [p]) @ take k ps) (ps ! k)) s spans))"
    by (simp only: pattern_scan_full_scan Cons.IH)
  also have "\<dots> = (\<forall>k<length (p # ps). \<exists>spans.
                 full_scan (at_turn h (before @ take k (p # ps)) ((p # ps) ! k)) s spans)"
    by (subst split) simp
  finally show ?case .
qed

lemma full_scan_unique: "full_scan R s spans \<Longrightarrow> full_scan R s spans' \<Longrightarrow> spans = spans'"
  using pattern_scan_full_scan [of R s spans] pattern_scan_full_scan [of R s spans'] by simp

lemma compilePatterns_Local:
  assumes "compilePatterns mk patterns = Inr ps" and "Local R \<in> set ps"
  shows "global R \<and> lastIndex R = 0"
proof (cases "patterns = PNull \<or> patterns = PString []")
  case True
  with assms show ?thesis by auto
next
  case False
  with compilePatterns_sources [OF _ _ assms(1)] assms(2)
  obtain src where "compiled_of mk src = Some (Local R)"
    by (auto simp: set_filter_Boolean)
  then show ?thesis
    by (cases src) (auto simp: compiled_of_def split: option.splits)
qed


text \<open>
  C9. The matches are grouped by pattern, one group for each compiled pattern in list
  order, and \<open>count\<close> is their number; every match is a non-empty substring of the
  content at the 0-based offset it reports, the content being the same string for all
  patterns, and within a group each match starts at or after the end of the one before.
  A group holds all the matches of its pattern only from the scan position of the
  pattern object on: it is the standard scan from the \<open>lastIndex\<close> the object has when
  its turn comes. That is 0 for a pattern compiled from a string and for an object an
  earlier entry of the list names too; an object of the caller is scanned from where
  the caller left it, and the matches before that position are missing. The call
  returns exactly when each pattern has such a scan: a global pattern must not reach
  an empty match, a pattern without \<open>g\<close> must match nowhere in the content.
\<close>

theorem identify_pattern_major:
  assumes "compilePatterns mk patterns = Inr ps"
  shows "((map_option fst (identifySensitiveText mk h content patterns) = Some (Inr res)) =
           (count res = length (matches res)
            \<and> (\<exists>groups. matches res = concat groups \<and> length groups = length ps
                  \<and> (\<forall>k<length ps. \<exists>spans.
                        full_scan (at_turn h (take k ps) (ps ! k)) (ToString content) spans
                        \<and> groups ! k = map (to_match (deref h (ps ! k)) (ToString content)) spans))))
    \<and> ((\<exists>res. map_option fst (identifySensitiveText mk h content patterns) = Some (Inr res)) =
           (\<forall>k<length ps. \<exists>spans.
               full_scan (at_turn h (take k ps) (ps ! k)) (ToString content) spans))
    \<and> (\<forall>R spans. full_scan R (ToString content) spans \<longrightarrow>
           (\<forall>spans'. full_scan R (ToString content) spans' \<longrightarrow> spans' = spans)
           \<and> sorted_wrt (\<lambda>m m'. match_index m + match_length m \<le> match_index m')
               (map (to_match R (ToString content)) spans)
           \<and> (\<forall>m\<in>set (map (to_match R (ToString content)) spans).
                 0 < match_length m
                 \<and> match_index m + match_length m \<le> length (ToString content)
                 \<and> match_text m = take (match_length m) (drop (match_index m) (ToString content))
                 \<and> match_pattern m = RegExp_toString R))
    \<and> (\<forall>R. Local R \<in> set ps \<longrightarrow> global R \<and> lastIndex R = 0)
    \<and> ((\<forall>p\<in>set ps. global (deref h p)
              \<and> no_empty_match (matcher (deref h p)) (ToString content)) \<longrightarrow>
           (\<exists>res. map_option fst (identifySensitiveText mk h content patterns) = Some (Inr res)))"
proof -
  let ?s = "ToString content"
  have fe: "identify_forEach h ps ?s [] =
     (case scan_groups h [] ps ?s of
        None \<Rightarrow> None
      | Some groups \<Rightarrow> Some (concat groups, store_after h ps))"
    using identify_forEach_scan_groups [of h "[]" ps ?s "[]"]
    by (simp add: store_after_Nil split: option.splits)
  have id: "map_option fst (identifySensitiveText mk h content patterns) =
      map_option (\<lambda>groups. Inr \<lparr>matches = concat groups, count = length (concat groups)\<rparr>)
        (scan_groups h [] ps ?s)"
    using assms by (simp add: identifySensitiveText_def fe split: option.splits)
  have eq: "(res = \<lparr>matches = ms, count = length ms\<rparr>) = (count res = length (matches res) \<and> matches res = ms)"
    for ms by (cases res) auto
  have "(map_option fst (identifySensitiveText mk h content patterns) = Some (Inr res)) =
      (\<exists>groups. scan_groups h [] ps ?s = Some groups
          \<and> res = \<lparr>matches = concat groups, count = length (concat groups)\<rparr>)"
    unfolding id by auto
  also have "\<dots> = (count res = length (matches res)
            \<and> (\<exists>groups. matches res = concat groups \<and> scan_groups h [] ps ?s = Some groups))"
    unfolding eq by auto
  also have "\<dots> = (count res = length (matches res)
            \<and> (\<exists>groups. matches res = concat groups \<and> length groups = length ps
                  \<and> (\<forall>k<length ps. \<exists>spans.
                        full_scan (at_turn h (take k ps) (ps ! k)) ?s spans
                        \<and> groups ! k = map (to_match (deref h (ps ! k)) ?s) spans)))"
    using scan_groups_meaning [of h "[]" ps ?s] by simp
  finally have c1: "(map_option fst (identifySensitiveText mk h content patterns) = Some (Inr res)) =
           (count res = length (matches res)
            \<and> (\<exists>groups. matches res = concat groups \<and> length groups = length ps
                  \<and> (\<forall>k<length ps. \<exists>spans.
                        full_scan (at_turn h (take k ps) (ps ! k)) ?s spans
                        \<and> groups ! k = map (to_match (deref h (ps ! k)) ?s) spans)))" .
  have "(\<exists>res. map_option fst (identifySensitiveText mk h content patterns) = Some (Inr res)) =
      (\<exists>groups. scan_groups h [] ps ?s = Some groups)"
    unfolding id by auto
  also have "\<dots> = (\<forall>k<length ps. \<exists>spans. full_scan (at_turn h (take k ps) (ps ! k)) ?s spans)"
    using scan_groups_returns [of h "[]" ps ?s] by simp
  finally have c2: "(\<exists>res. map_option fst (identifySensitiveText mk h content patterns) = Some (Inr res)) =
           (\<forall>k<length ps. \<exists>spans. full_scan (at_turn h (take k ps) (ps ! k)) ?s spans)" .
  have c3: "\<forall>R spans. full_scan R ?s spans \<longrightarrow>
           (\<forall>spans'. full_scan R ?s spans' \<longrightarrow> spans' = spans)
           \<and> sorted_wrt (\<lambda>m m'. match_index m + match_length m \<le> match_index m')
               (map (to_match R ?s) spans)
           \<and> (\<forall>m\<in>set (map (to_match R ?s) spans).
                 0 < match_length m
                 \<and> match_index m + match_length m \<le> length ?s
                 \<and> match_text m = take (match_length m) (drop (match_index m) ?s)
                 \<and> match_pattern m = RegExp_toString R)"
  proof (intro allI impI)
    fix R spans assume fs: "full_scan R ?s spans"
    from full_scan_ascending [OF fs]
    have a: "sorted_wrt (\<lambda>a b. snd a \<le> fst b) spans"
      and b: "\<forall>a\<in>set spans. fst a < snd a \<and> snd a \<le> length ?s" by simp_all
    from to_match_ascending [OF a b, of R] full_scan_unique [OF _ fs]
    show "(\<forall>spans'. full_scan R ?s spans' \<longrightarrow> spans' = spans)
           \<and> sorted_wrt (\<lambda>m m'. match_index m + match_length m \<le> match_index m')
               (map (to_match R ?s) spans)
           \<and> (\<forall>m\<in>set (map (to_match R ?s) spans).
                 0 < match_length m
                 \<and> match_index m + match_length m \<le> length ?s
                 \<and> match_text m = take (match_length m) (drop (match_index m) ?s)
                 \<and> match_pattern m = RegExp_toString R)"
      by blast
  qed
  have c4: "\<forall>R. Local R \<in> set ps \<longrightarrow> global R \<and> lastIndex R = 0"
    using compilePatterns_Local [OF assms] by blast
  have c5: "(\<forall>p\<in>set ps. global (deref h p) \<and> no_empty_match (matcher (deref h p)) ?s) \<longrightarrow>
           (\<exists>res. map_option fst (identifySensitiveText mk h content patterns) = Some (Inr res))"
  proof
    assume "\<forall>p\<in>set ps. global (deref h p) \<and> no_empty_match (matcher (deref h p)) ?s"
    from identify_forEach_returns [OF this, of "[]"] assms
    show "\<exists>res. map_option fst (identifySensitiveText mk h content patterns) = Some (Inr res)"
      by (auto simp: identifySensitiveText_def)
  qed
  show ?thesis
    by (intro conjI) (rule c1, rule c2, rule c3, rule c4, rule c5)
qed

text \<open>
  The caller's \<open>/b/g\<close> with \<open>lastIndex\<close> 2, on the content \<open>abcb\<close>: the pattern
  matches at offsets 1 and 3, the call reports the match at 3 only.
\<close>

theorem identify_scan_position_counterexample:
  "map_option fst (identifySensitiveText RegExp_literal (caller_store (caller_pattern True 2))
       (Text ''abcb'') (PList [SrcRegExp 4]))
     = Some (Inr \<lparr>matches = [\<lparr>match_text = ''b'', match_index = 3, match_length = 1,
                                match_pattern = ''/b/g''\<rparr>],
                  count = 1\<rparr>)
   \<and> search (matcher (caller_pattern True 2)) ''abcb'' 0 = Some (1, 2)
   \<and> search (matcher (caller_pattern True 2)) ''abcb'' 2 = Some (3, 4)"
  by code_simp

text \<open>
  With the default patterns both email matches come before the phone match, which lies
  between them in the content.
\<close>

theorem identify_pattern_major_witness:
  "compilePatterns RegExp_literal PNull = Inr (map Shared DEFAULT_PATTERNS)
   \<and> map_option fst (identifySensitiveText RegExp_literal module_store
         (Text ''x@y.zz 555-123-4567 a@b.com'') PNull)
     = Some (Inr \<lparr>matches =
                    [\<lparr>match_text = ''x@y.zz'', match_index = 0, match_length = 6,
                      match_pattern = RegExp_toString email_pattern\<rparr>,
                     \<lparr>match_text = ''a@b.com'', match_index = 20, match_length = 7,
                      match_pattern = RegExp_toString email_pattern\<rparr>,
                     \<lparr>match_text = ''555-123-4567'', match_index = 7, match_length = 12,
                      match_pattern = RegExp_toString phone_pattern\<rparr>],
                  count = 3\<rparr>)
   \<and> full_scan email_pattern ''x@y.zz 555-123-4567 a@b.com'' [(0, 6), (20, 27)]
   \<and> list_all (\<lambda>p. global (deref module_store p)
                    \<and> no_empty_match (matcher (deref module_store p)) ''x@y.zz 555-123-4567 a@b.com'')
        (map Shared DEFAULT_PATTERNS)
   \<and> (\<exists>groups.
         [\<lparr>match_text = ''x@y.zz'', match_index = 0, match_length = 6,
           match_pattern = RegExp_toString email_pattern\<rparr>,
          \<lparr>match_text = ''a@b.com'', match_index = 20, match_length = 7,
           match_pattern = RegExp_toString email_pattern\<rparr>,
          \<lparr>match_text = ''555-123-4567'', match_index = 7, match_length = 12,
           match_pattern = RegExp_toString phone_pattern\<rparr>] = concat groups
         \<and> length groups = 4
         \<and> groups ! 0 = map (to_match email_pattern ''x@y.zz 555-123-4567 a@b.com'')
                           [(0, 6), (20, 27)])"
proof -
  let ?s = "''x@y.zz 555-123-4567 a@b.com''"
  let ?res = "\<lparr>matches =
                    [\<lparr>match_text = ''x@y.zz'', match_index = 0, match_length = 6,
                      match_pattern = RegExp_toString email_pattern\<rparr>,
                     \<lparr>match_text = ''a@b.com'', match_index = 20, match_length = 7,
                      match_pattern = RegExp_toString email_pattern\<rparr>,
                     \<lparr>match_text = ''555-123-4567'', match_index = 7, match_length = 12,
                      match_pattern = RegExp_toString phone_pattern\<rparr>],
                  count = 3\<rparr>"
  have c: "compilePatterns RegExp_literal PNull = Inr (map Shared DEFAULT_PATTERNS)" by simp
  have i: "map_option fst (identifySensitiveText RegExp_literal module_store (Text ?s) PNull)
     = Some (Inr ?res)"
    by code_simp
  have f: "full_scan email_pattern ?s [(0, 6), (20, 27)]"
    by code_simp
  have n: "list_all (\<lambda>p. global (deref module_store p)
                    \<and> no_empty_match (matcher (deref module_store p)) ?s)
        (map Shared DEFAULT_PATTERNS)"
    by code_simp
  have at: "at_turn module_store (take 0 (map Shared DEFAULT_PATTERNS)) (map Shared DEFAULT_PATTERNS ! 0)
      = email_pattern"
    by (simp add: DEFAULT_PATTERNS_def module_store_def)
  have d: "deref module_store (map Shared DEFAULT_PATTERNS ! 0) = email_pattern"
    by (simp add: DEFAULT_PATTERNS_def module_store_def)
  from identify_pattern_major [where h = module_store and content = "Text ?s" and res = ?res,
      OF c, THEN conjunct1] i
  obtain groups where g: "matches ?res = concat groups"
    and l: "length groups = length (map Shared DEFAULT_PATTERNS)"
    and a: "\<forall>k<length (map Shared DEFAULT_PATTERNS). \<exists>spans.
               full_scan (at_turn module_store (take k (map Shared DEFAULT_PATTERNS))
                            (map Shared DEFAULT_PATTERNS ! k)) (ToString (Text ?s)) spans
               \<and> groups ! k = map (to_match (deref module_store (map Shared DEFAULT_PATTERNS ! k))
                                      (ToString (Text ?s))) spans"
    by auto
  have "0 < length (map Shared DEFAULT_PATTERNS)" by (simp add: DEFAULT_PATTERNS_def)
  with a obtain spans where
    "full_scan (at_turn module_store (take 0 (map Shared DEFAULT_PATTERNS))
                            (map Shared DEFAULT_PATTERNS ! 0)) (ToString (Text ?s)) spans"
    and g0: "groups ! 0 = map (to_match (deref module_store (map Shared DEFAULT_PATTERNS ! 0))
                                      (ToString (Text ?s))) spans"
    by blast
  then have "full_scan email_pattern ?s spans" by (simp only: at) simp
  from full_scan_unique [OF this f] g0 have "groups ! 0 = map (to_match email_pattern ?s) [(0, 6), (20, 27)]"
    by (simp only: d) simp
  moreover from l have "length groups = 4" by (simp add: DEFAULT_PATTERNS_def)
  ultimately have "\<exists>groups. matches ?res = concat groups \<and> length groups = 4
      \<and> groups ! 0 = map (to_match email_pattern ?s) [(0, 6), (20, 27)]"
    using g by blast
  with c i f n show ?thesis by simp
qed


section \<open>The preview\<close>

text \<open>
  A buffer cut into the text between the matches and the matches themselves, and the
  same buffer with every match inside one marker.
\<close>

datatype segment = Plain string | Hit string

fun seg_text :: "segment \<Rightarrow> string" where
  "seg_text (Plain t) = t"
| "seg_text (Hit t) = t"

fun seg_marked :: "segment \<Rightarrow> string" where
  "seg_marked (Plain t) = t"
| "seg_marked (Hit t) = mark_open @ t @ mark_close"

fun segments :: "string \<Rightarrow> match_array list \<Rightarrow> nat \<Rightarrow> segment list" where
  "segments S [] pos = [Plain (drop pos S)]"
| "segments S (m # ms) pos =
     Plain (take (m_index m - pos) (drop pos S)) # Hit (m_0 m)
       # segments S ms (m_index m + length (m_0 m))"

text \<open>
  The same cut for matches given as spans (start, end) of the buffer: the text from
  \<open>pos\<close> to the first span, the span itself, and so on from its end.
\<close>

fun span_segments :: "string \<Rightarrow> (nat \<times> nat) list \<Rightarrow> nat \<Rightarrow> segment list" where
  "span_segments S [] pos = [Plain (drop pos S)]"
| "span_segments S ((j, e) # spans) pos =
     Plain (take (j - pos) (drop pos S)) # Hit (take (e - j) (drop j S))
       # span_segments S spans e"

text \<open>
  The matches of a pattern in a buffer, from position \<open>i\<close> on, in the sense of the
  language: each one is the first match at or after the end of the one before (one
  position further on when that one was empty), and after the last one the pattern
  matches nowhere. The list is determined by the pattern, the buffer and \<open>i\<close>.
\<close>

fun every_match :: "regex \<Rightarrow> string \<Rightarrow> nat \<Rightarrow> (nat \<times> nat) list \<Rightarrow> bool" where
  "every_match r s i [] = (search r s i = None)"
| "every_match r s i ((j, e) # spans) =
     (search r s i = Some (j, e) \<and> every_match r s (if e = j then Suc e else e) spans)"

text \<open>
  What one \<open>replace\<close> wraps: every match of a global pattern, whatever its
  \<open>lastIndex\<close>; of a pattern without \<open>g\<close>, which only a pattern object of the caller
  can be, the first match and no other.
\<close>

definition wrapped_spans :: "regexp \<Rightarrow> string \<Rightarrow> (nat \<times> nat) list \<Rightarrow> bool" where
  "wrapped_spans R s spans =
     (if global R then every_match (matcher R) s 0 spans
      else spans = (case search (matcher R) s 0 of None \<Rightarrow> [] | Some span \<Rightarrow> [span]))"

definition span_match :: "string \<Rightarrow> nat \<times> nat \<Rightarrow> match_array" where
  "span_match S span = \<lparr>m_index = fst span, m_0 = take (snd span - fst span) (drop (fst span) S)\<rparr>"

text \<open>The results \<open>replace\<close> collects for a pattern in a buffer, and one rewriting step.\<close>

definition matches_in :: "regexp \<Rightarrow> string \<Rightarrow> match_array list" where
  "matches_in R S = fst (replace_loop (if global R then R\<lparr>lastIndex := 0\<rparr> else R) S)"

definition mark_matches :: "regexp \<Rightarrow> string \<Rightarrow> string" where
  "mark_matches R buf = fst (String_replace buf R highlight)"

fun results_ok :: "string \<Rightarrow> nat \<Rightarrow> match_array list \<Rightarrow> bool" where
  "results_ok S pos [] = True"
| "results_ok S pos (m # ms) =
     (pos \<le> m_index m \<and> m_index m + length (m_0 m) \<le> length S
      \<and> m_0 m = take (length (m_0 m)) (drop (m_index m) S)
      \<and> results_ok S (m_index m + length (m_0 m)) ms)"

lemma RegExp_exec_result:
  assumes "RegExp_exec R S = (Some m, R')"
  shows "(if global R then lastIndex R else 0) \<le> m_index m
     \<and> m_index m + length (m_0 m) \<le> length S
     \<and> m_0 m = take (length (m_0 m)) (drop (m_index m) S)"
proof -
  from assms obtain i e where s: "search (matcher R) S (if global R then lastIndex R else 0) = Some (i, e)"
    and m: "m = \<lparr>m_index = i, m_0 = take (e - i) (drop i S)\<rparr>"
    by (auto simp: RegExp_exec_def split: option.splits)
  from search_range [OF s] have r: "(if global R then lastIndex R else 0) \<le> i" "i \<le> e" "e \<le> length S"
    by simp_all
  then have "length (take (e - i) (drop i S)) = e - i" by simp
  with m r show ?thesis by simp
qed

lemma replace_loop_fst:
  "fst (replace_loop rx S) =
     (case RegExp_exec rx S of
        (None, rx') \<Rightarrow> []
      | (Some result, rx') \<Rightarrow>
          if \<not> global rx then [result]
          else result # fst (replace_loop
                 (if m_0 result = [] then rx'\<lparr>lastIndex := Suc (lastIndex rx')\<rparr> else rx') S))"
  by (subst replace_loop.simps) (simp add: Let_def split: prod.splits option.splits)

lemma replace_loop_ok:
  "pos \<le> (if global R then lastIndex R else 0) \<Longrightarrow> results_ok S pos (fst (replace_loop R S))"
proof (induction R S arbitrary: pos rule: replace_loop.induct)
  case (1 rx S)
  show ?case
  proof (cases "RegExp_exec rx S")
    case (Pair res rx')
    show ?thesis
    proof (cases res)
      case None
      with Pair show ?thesis by (simp add: replace_loop_fst [of rx S])
    next
      case (Some result)
      with Pair have ex: "RegExp_exec rx S = (Some result, rx')" by simp
      from RegExp_exec_result [OF ex] "1.prems"
      have r: "pos \<le> m_index result" "m_index result + length (m_0 result) \<le> length S"
        "m_0 result = take (length (m_0 result)) (drop (m_index result) S)"
        by simp_all
      show ?thesis
      proof (cases "global rx")
        case False
        with ex r show ?thesis by (simp add: replace_loop_fst [of rx S])
      next
        case True
        define rx'' where "rx'' = (if m_0 result = [] then rx'\<lparr>lastIndex := Suc (lastIndex rx')\<rparr> else rx')"
        from RegExp_exec_global [OF True ex]
        have g': "global rx'" and l': "lastIndex rx' = m_index result + length (m_0 result)"
          by blast+
        have "m_index result + length (m_0 result) \<le> (if global rx'' then lastIndex rx'' else 0)"
          using g' l' by (simp add: rx''_def)
        from "1.IH" [OF Pair [symmetric] Some _ rx''_def this] True
        have "results_ok S (m_index result + length (m_0 result)) (fst (replace_loop rx'' S))"
          by simp
        with ex r True show ?thesis
          by (simp add: replace_loop_fst [of rx S] rx''_def [symmetric])
      qed
    qed
  qed
qed

lemma matches_in_ok: "results_ok S 0 (matches_in R S)"
  unfolding matches_in_def by (rule replace_loop_ok) simp

lemma take_drop_join:
  assumes "pos \<le> j" and "j + n \<le> length S"
  shows "take (j - pos) (drop pos S) @ take n (drop j S) @ drop (j + n) S = drop pos S"
proof -
  have "take n (drop j S) @ drop (j + n) S = drop j S"
    by (metis add.commute append_take_drop_id drop_drop)
  moreover from assms have "take (j - pos) (drop pos S) @ drop j S = drop pos S"
    by (metis add_diff_inverse_nat append_take_drop_id drop_drop le_imp_less_Suc
        not_less_eq add.commute)
  ultimately show ?thesis by simp
qed

lemma segments_text:
  "results_ok S pos ms \<Longrightarrow> concat (map seg_text (segments S ms pos)) = drop pos S"
proof (induction ms arbitrary: pos)
  case Nil
  show ?case by simp
next
  case (Cons m ms)
  from Cons.prems have r: "pos \<le> m_index m" "m_index m + length (m_0 m) \<le> length S"
    and t: "m_0 m = take (length (m_0 m)) (drop (m_index m) S)"
    and rest: "results_ok S (m_index m + length (m_0 m)) ms" by simp_all
  from Cons.IH [OF rest]
  have "concat (map seg_text (segments S (m # ms) pos))
      = take (m_index m - pos) (drop pos S) @ m_0 m @ drop (m_index m + length (m_0 m)) S"
    by simp
  also have "\<dots> = take (m_index m - pos) (drop pos S) @ take (length (m_0 m)) (drop (m_index m) S)
                  @ drop (m_index m + length (m_0 m)) S"
    using t by simp
  also have "\<dots> = drop pos S" using r by (rule take_drop_join)
  finally show ?case .
qed

lemma replace_build_segments:
  "results_ok S pos ms \<Longrightarrow>
   replace_build S highlight ms acc pos = acc @ concat (map seg_marked (segments S ms pos))"
proof (induction ms arbitrary: pos acc)
  case Nil
  show ?case by simp
next
  case (Cons m ms)
  from Cons.prems have r: "pos \<le> m_index m" "m_index m + length (m_0 m) \<le> length S"
    and rest: "results_ok S (m_index m + length (m_0 m)) ms" by simp_all
  from r have mn: "min (m_index m) (length S) = m_index m" by simp
  from Cons.IH [OF rest] r show ?case
    by (simp add: mn Let_def highlight_def)
qed

lemma replace_loop_local:
  "\<not> global R \<Longrightarrow>
   fst (replace_loop R S) =
     (case search (matcher R) S 0 of
        None \<Rightarrow> []
      | Some (i, e) \<Rightarrow> [\<lparr>m_index = i, m_0 = take (e - i) (drop i S)\<rparr>])"
  by (simp add: replace_loop_fst [of R S] RegExp_exec_def split: option.splits)

lemma pat_eq_reset: "pat_eq R R' \<Longrightarrow> R\<lparr>lastIndex := 0\<rparr> = R'\<lparr>lastIndex := 0\<rparr>"
  by (cases R; cases R') (simp add: pat_eq_def)

lemma String_replace_pat_eq:
  assumes "pat_eq R R'"
  shows "fst (String_replace S R f) = fst (String_replace S R' f)"
proof (cases "global R")
  case True
  with assms have "global R'" by (simp add: pat_eq_def)
  with True pat_eq_reset [OF assms] show ?thesis by (simp add: String_replace_eq)
next
  case False
  with assms have "\<not> global R'" and "matcher R = matcher R'" by (simp_all add: pat_eq_def)
  with False show ?thesis by (simp add: String_replace_eq replace_loop_local)
qed

lemma replace_forEach_foldl:
  "\<forall>q. pat_eq (deref h q) (deref h0 q) \<Longrightarrow>
   fst (replace_forEach f h ps s) = foldl (\<lambda>buf p. fst (String_replace buf (deref h0 p) f)) s ps"
proof (induction ps arbitrary: h s)
  case Nil
  show ?case by simp
next
  case (Cons p ps)
  let ?R' = "snd (String_replace s (deref h p) f)"
  have "pat_eq ?R' (deref h p)" by (simp add: String_replace_final pat_eq_def)
  with Cons.prems have inv: "\<forall>q. pat_eq (deref (assign h p ?R') q) (deref h0 q)"
    using pat_eq_assign by blast
  from Cons.prems have "pat_eq (deref h p) (deref h0 p)" by simp
  from String_replace_pat_eq [OF this]
  have "fst (String_replace s (deref h p) f) = fst (String_replace s (deref h0 p) f)" .
  with Cons.IH [OF inv] show ?case by (simp only: replace_forEach_Cons foldl_Cons)
qed


lemma every_match_range:
  "every_match r s i spans \<Longrightarrow>
   sorted_wrt (\<lambda>a b. snd a \<le> fst b) spans
   \<and> (\<forall>a\<in>set spans. i \<le> fst a \<and> fst a \<le> snd a \<and> snd a \<le> length s)"
proof (induction spans arbitrary: i)
  case Nil
  show ?case by simp
next
  case (Cons a spans)
  obtain j e where a: "a = (j, e)" by (cases a)
  with Cons.prems have se: "search r s i = Some (j, e)"
    and rest: "every_match r s (if e = j then Suc e else e) spans" by simp_all
  from search_range [OF se] have r: "i \<le> j" "j \<le> e" "e \<le> length s" by simp_all
  from Cons.IH [OF rest]
  have s: "sorted_wrt (\<lambda>a b. snd a \<le> fst b) spans"
    and b: "\<forall>a\<in>set spans. (if e = j then Suc e else e) \<le> fst a \<and> fst a \<le> snd a \<and> snd a \<le> length s"
    by simp_all
  from b have "\<forall>b\<in>set spans. e \<le> fst b" by (auto split: if_splits)
  moreover from b r have "\<forall>a\<in>set spans. i \<le> fst a \<and> fst a \<le> snd a \<and> snd a \<le> length s"
    by (auto split: if_splits)
  ultimately show ?case using a r s by simp
qed

lemma every_match_unique:
  "every_match r s i spans \<Longrightarrow> every_match r s i spans' \<Longrightarrow> spans = spans'"
proof (induction spans arbitrary: i spans')
  case Nil
  then show ?case by (cases spans') auto
next
  case (Cons a spans)
  obtain j e where a: "a = (j, e)" by (cases a)
  with Cons.prems(1) have se: "search r s i = Some (j, e)"
    and rest: "every_match r s (if e = j then Suc e else e) spans" by simp_all
  from se Cons.prems(2) obtain rest' where sp': "spans' = (j, e) # rest'"
    and r': "every_match r s (if e = j then Suc e else e) rest'"
    by (cases spans') auto
  from Cons.IH [OF rest r'] a sp' show ?case by simp
qed

lemma span_match_empty:
  assumes "j \<le> e" and "e \<le> length S"
  shows "(m_0 (span_match S (j, e)) = []) = (e = j)"
    and "m_index (span_match S (j, e)) + length (m_0 (span_match S (j, e))) = e"
  using assms by (auto simp: span_match_def)

lemma replace_loop_every_match:
  "global rx \<Longrightarrow>
   \<exists>spans. every_match (matcher rx) S (lastIndex rx) spans
      \<and> fst (replace_loop rx S) = map (span_match S) spans"
proof (induction rx S rule: replace_loop.induct)
  case (1 rx S)
  note g = "1.prems"
  show ?case
  proof (cases "search (matcher rx) S (lastIndex rx)")
    case None
    with g have "RegExp_exec rx S = (None, rx\<lparr>lastIndex := 0\<rparr>)"
      by (simp add: RegExp_exec_def)
    then have "fst (replace_loop rx S) = []" by (simp add: replace_loop_fst [of rx S])
    with None have "every_match (matcher rx) S (lastIndex rx) []
      \<and> fst (replace_loop rx S) = map (span_match S) []" by simp
    then show ?thesis by blast
  next
    case (Some a)
    obtain j e where a: "a = (j, e)" by (cases a)
    with Some have se: "search (matcher rx) S (lastIndex rx) = Some (j, e)" by simp
    from search_range [OF se] have r: "j \<le> e" "e \<le> length S" by simp_all
    define result where "result = span_match S (j, e)"
    define rx' where "rx' = rx\<lparr>lastIndex := e\<rparr>"
    define rx'' where "rx'' = (if m_0 result = [] then rx'\<lparr>lastIndex := Suc (lastIndex rx')\<rparr> else rx')"
    from se g have ex: "RegExp_exec rx S = (Some result, rx')"
      by (simp add: RegExp_exec_def result_def rx'_def span_match_def)
    have g'': "global rx''" using g by (simp add: rx''_def rx'_def)
    from "1.IH" [OF ex [symmetric] refl _ rx''_def g''] g
    obtain spans where em: "every_match (matcher rx'') S (lastIndex rx'') spans"
      and fl: "fst (replace_loop rx'' S) = map (span_match S) spans"
      by auto
    have m: "matcher rx'' = matcher rx" by (simp add: rx''_def rx'_def)
    have l: "lastIndex rx'' = (if e = j then Suc e else e)"
      using span_match_empty(1) [OF r] by (simp add: rx''_def rx'_def result_def)
    from em have "every_match (matcher rx) S (lastIndex rx) ((j, e) # spans)"
      using se by (simp add: m l)
    moreover have "fst (replace_loop rx S) = result # fst (replace_loop rx'' S)"
      using ex g by (simp add: replace_loop_fst [of rx S] rx''_def)
    then have "fst (replace_loop rx S) = map (span_match S) ((j, e) # spans)"
      by (simp only: fl result_def list.map)
    ultimately show ?thesis by blast
  qed
qed

lemma matches_in_spans: "\<exists>spans. wrapped_spans R S spans \<and> matches_in R S = map (span_match S) spans"
proof (cases "global R")
  case True
  then have "global (R\<lparr>lastIndex := 0\<rparr>)" by simp
  from replace_loop_every_match [OF this, of S] True show ?thesis
    by (simp add: wrapped_spans_def matches_in_def)
next
  case False
  then show ?thesis
    by (auto simp: wrapped_spans_def matches_in_def replace_loop_local span_match_def
        split: option.splits)
qed

lemma wrapped_spans_range:
  assumes "wrapped_spans R S spans"
  shows "sorted_wrt (\<lambda>a b. snd a \<le> fst b) spans
   \<and> (\<forall>a\<in>set spans. fst a \<le> snd a \<and> snd a \<le> length S)"
proof (cases "global R")
  case True
  with assms every_match_range [of "matcher R" S 0 spans] show ?thesis
    by (simp add: wrapped_spans_def)
next
  case False
  with assms show ?thesis
    by (auto simp: wrapped_spans_def split: option.splits dest: search_range)
qed

lemma wrapped_spans_unique:
  "wrapped_spans R S spans \<Longrightarrow> wrapped_spans R S spans' \<Longrightarrow> spans = spans'"
  by (cases "global R") (auto simp: wrapped_spans_def dest: every_match_unique)

lemma segments_spans:
  "\<forall>a\<in>set spans. fst a \<le> snd a \<and> snd a \<le> length S \<Longrightarrow>
   segments S (map (span_match S) spans) pos = span_segments S spans pos"
proof (induction spans arbitrary: pos)
  case Nil
  show ?case by simp
next
  case (Cons a spans)
  obtain j e where a: "a = (j, e)" by (cases a)
  with Cons.prems have r: "j \<le> e" "e \<le> length S" by simp_all
  from Cons.prems have "\<forall>a\<in>set spans. fst a \<le> snd a \<and> snd a \<le> length S" by simp
  from Cons.IH [OF this] a span_match_empty(2) [OF r] show ?case
    by (simp add: span_match_def)
qed

lemma mark_matches_spans:
  "\<exists>spans. wrapped_spans R buf spans
      \<and> buf = concat (map seg_text (span_segments buf spans 0))
      \<and> mark_matches R buf = concat (map seg_marked (span_segments buf spans 0))"
proof -
  from matches_in_spans [of R buf] obtain spans where w: "wrapped_spans R buf spans"
    and m: "matches_in R buf = map (span_match buf) spans" by blast
  from wrapped_spans_range [OF w]
  have "\<forall>a\<in>set spans. fst a \<le> snd a \<and> snd a \<le> length buf" by simp
  from segments_spans [OF this, of 0] m
  have s: "segments buf (matches_in R buf) 0 = span_segments buf spans 0" by simp
  from segments_text [OF matches_in_ok, of buf R]
    replace_build_segments [OF matches_in_ok, of buf R "[]"]
  have "buf = concat (map seg_text (segments buf (matches_in R buf) 0))
   \<and> mark_matches R buf = concat (map seg_marked (segments buf (matches_in R buf) 0))"
    by (simp add: mark_matches_def String_replace_eq matches_in_def)
  with w s show ?thesis by auto
qed

text \<open>
  C7, as amended. \<open>previewSensitiveContent\<close> rewrites the buffer once for each compiled
  pattern, in the order of the list. In one rewrite by a global pattern, every match of
  that pattern in the buffer as it then is gets exactly one marker around the
  unmodified matched text, and the text between the matches is unchanged; the matches
  are those of the standard scan from position 0, whatever the \<open>lastIndex\<close> of the
  pattern object. A pattern object without \<open>g\<close> gets a marker around its first match
  only. A later pattern scans the buffer with the markers of the earlier ones in it.
\<close>

theorem preview_marks_stepwise:
  "compilePatterns mk patterns = Inr ps \<Longrightarrow>
   fst (previewSensitiveContent mk h (Text s) patterns)
     = Inr (Text (foldl (\<lambda>buf p. mark_matches (deref h p) buf) s ps))
   \<and> (\<exists>spans. wrapped_spans R buf spans
          \<and> (\<forall>spans'. wrapped_spans R buf spans' \<longrightarrow> spans' = spans)
          \<and> sorted_wrt (\<lambda>a b. snd a \<le> fst b) spans
          \<and> (\<forall>a\<in>set spans. fst a \<le> snd a \<and> snd a \<le> length buf)
          \<and> buf = concat (map seg_text (span_segments buf spans 0))
          \<and> mark_matches R buf = concat (map seg_marked (span_segments buf spans 0)))"
proof -
  assume c: "compilePatterns mk patterns = Inr ps"
  have "\<forall>q. pat_eq (deref h q) (deref h q)" by (simp add: pat_eq_def)
  from replace_forEach_foldl [OF this, of highlight ps s] c
  have a: "fst (previewSensitiveContent mk h (Text s) patterns)
     = Inr (Text (foldl (\<lambda>buf p. mark_matches (deref h p) buf) s ps))"
    by (simp add: preview_Text mark_matches_def)
  from mark_matches_spans [of R buf] obtain spans where w: "wrapped_spans R buf spans"
    and t: "buf = concat (map seg_text (span_segments buf spans 0))"
    and m: "mark_matches R buf = concat (map seg_marked (span_segments buf spans 0))"
    by blast
  from wrapped_spans_unique [OF _ w]
  have u: "\<forall>spans'. wrapped_spans R buf spans' \<longrightarrow> spans' = spans" by blast
  from wrapped_spans_range [OF w]
  have r: "sorted_wrt (\<lambda>a b. snd a \<le> fst b) spans"
    "\<forall>a\<in>set spans. fst a \<le> snd a \<and> snd a \<le> length buf" by simp_all
  from w u r t m
  have "\<exists>spans. wrapped_spans R buf spans
          \<and> (\<forall>spans'. wrapped_spans R buf spans' \<longrightarrow> spans' = spans)
          \<and> sorted_wrt (\<lambda>a b. snd a \<le> fst b) spans
          \<and> (\<forall>a\<in>set spans. fst a \<le> snd a \<and> snd a \<le> length buf)
          \<and> buf = concat (map seg_text (span_segments buf spans 0))
          \<and> mark_matches R buf = concat (map seg_marked (span_segments buf spans 0))"
    by blast
  with a show ?thesis by (rule conjI)
qed


text \<open>
  The number of marker spans that are open at a position of the output: every opening
  marker before the position counts one up, every closing marker one down.
\<close>

fun depth_scan :: "string \<Rightarrow> nat \<Rightarrow> nat \<Rightarrow> nat" where
  "depth_scan out 0 d = d"
| "depth_scan [] (Suc k) d = d"
| "depth_scan (c # cs) (Suc k) d =
     depth_scan cs k
       (if take (length mark_open) (c # cs) = mark_open then Suc d
        else if take (length mark_close) (c # cs) = mark_close then d - 1
        else d)"

definition marker_depth :: "string \<Rightarrow> nat \<Rightarrow> nat" where
  "marker_depth out k = depth_scan out k 0"


text \<open>
  The claim as written fails when a later pattern matches text that an earlier one has
  wrapped. In "5551234567@x.co" the email pattern wraps the whole text and the phone
  pattern then wraps the ten digits inside that span: the digits stand at position 62
  of the output, enclosed in two spans.
\<close>

theorem preview_nested_counterexample:
  "fst (previewSensitiveContent RegExp_literal module_store (Text ''5551234567@x.co'') PNull)
     = Inr (Text (mark_open @ mark_open @ ''5551234567'' @ mark_close @ ''@x.co'' @ mark_close))
   \<and> take 10 (drop 62 (mark_open @ mark_open @ ''5551234567'' @ mark_close @ ''@x.co'' @ mark_close))
     = ''5551234567''
   \<and> marker_depth (mark_open @ mark_open @ ''5551234567'' @ mark_close @ ''@x.co'' @ mark_close) 62
     = 2"
  by code_simp


text \<open>
  Two patterns whose matches do not touch: each match is wrapped once. The caller's
  \<open>/b/\<close>, without \<open>g\<close>, on \<open>abcb\<close>: the first \<open>b\<close> is wrapped, the second is not.
\<close>

theorem preview_marks_stepwise_witness:
  "compilePatterns RegExp_literal (PString ''b@c, 42'') =
     Inr [Local \<lparr>source = ''b@c'', global = True,
                 matcher = RSeq (RSet [CChar CHR ''b''])
                            (RSeq (RSet [CChar CHR ''@''])
                            (RSeq (RSet [CChar CHR ''c'']) REmpty)),
                 lastIndex = 0\<rparr>,
          Local \<lparr>source = ''42'', global = True,
                 matcher = RSeq (RSet [CChar CHR ''4''])
                            (RSeq (RSet [CChar CHR ''2'']) REmpty),
                 lastIndex = 0\<rparr>]
   \<and> fst (previewSensitiveContent RegExp_literal module_store (Text ''a 42 b@c 42'') (PString ''b@c, 42''))
     = Inr (Text (''a '' @ mark_open @ ''42'' @ mark_close @ '' '' @ mark_open @ ''b@c'' @ mark_close
                    @ '' '' @ mark_open @ ''42'' @ mark_close))
   \<and> wrapped_spans (caller_pattern True 2) ''abcb'' [(1, 2), (3, 4)]
   \<and> mark_matches (caller_pattern True 2) ''abcb''
       = ''a'' @ mark_open @ ''b'' @ mark_close @ ''c'' @ mark_open @ ''b'' @ mark_close
   \<and> wrapped_spans (caller_pattern False 0) ''abcb'' [(1, 2)]
   \<and> mark_matches (caller_pattern False 0) ''abcb'' = ''a'' @ mark_open @ ''b'' @ mark_close @ ''cb''"
proof -
  let ?ps = "[Local \<lparr>source = ''b@c'', global = True,
                 matcher = RSeq (RSet [CChar CHR ''b''])
                            (RSeq (RSet [CChar CHR ''@''])
                            (RSeq (RSet [CChar CHR ''c'']) REmpty)),
                 lastIndex = 0\<rparr>,
          Local \<lparr>source = ''42'', global = True,
                 matcher = RSeq (RSet [CChar CHR ''4''])
                            (RSeq (RSet [CChar CHR ''2'']) REmpty),
                 lastIndex = 0\<rparr>]"
  have c: "compilePatterns RegExp_literal (PString ''b@c, 42'') = Inr ?ps"
    by code_simp
  have f: "foldl (\<lambda>buf p. mark_matches (deref module_store p) buf) ''a 42 b@c 42'' ?ps
     = ''a '' @ mark_open @ ''42'' @ mark_close @ '' '' @ mark_open @ ''b@c'' @ mark_close
                    @ '' '' @ mark_open @ ''42'' @ mark_close"
    by code_simp
  have w1: "wrapped_spans (caller_pattern True 2) ''abcb'' [(1, 2), (3, 4)]" by code_simp
  have w2: "wrapped_spans (caller_pattern False 0) ''abcb'' [(1, 2)]" by code_simp
  have s1: "concat (map seg_marked (span_segments ''abcb'' [(1, 2), (3, 4)] 0))
      = ''a'' @ mark_open @ ''b'' @ mark_close @ ''c'' @ mark_open @ ''b'' @ mark_close"
    by code_simp
  have s2: "concat (map seg_marked (span_segments ''abcb'' [(1, 2)] 0))
      = ''a'' @ mark_open @ ''b'' @ mark_close @ ''cb''"
    by code_simp
  from preview_marks_stepwise [OF c, of module_store "''a 42 b@c 42''" "caller_pattern True 2" "''abcb''"]
  obtain spans where a: "fst (previewSensitiveContent RegExp_literal module_store (Text ''a 42 b@c 42'')
        (PString ''b@c, 42''))
     = Inr (Text (foldl (\<lambda>buf p. mark_matches (deref module_store p) buf) ''a 42 b@c 42'' ?ps))"
    and u: "\<forall>spans'. wrapped_spans (caller_pattern True 2) ''abcb'' spans' \<longrightarrow> spans' = spans"
    and m: "mark_matches (caller_pattern True 2) ''abcb''
       = concat (map seg_marked (span_segments ''abcb'' spans 0))"
    by blast
  from u w1 have sp: "spans = [(1, 2), (3, 4)]" by blast
  have m1: "mark_matches (caller_pattern True 2) ''abcb''
       = ''a'' @ mark_open @ ''b'' @ mark_close @ ''c'' @ mark_open @ ''b'' @ mark_close"
    using m s1 by (simp only: sp)
  from preview_marks_stepwise [OF c, of module_store "''a 42 b@c 42''" "caller_pattern False 0" "''abcb''"]
  obtain spans2 where
    u2: "\<forall>spans'. wrapped_spans (caller_pattern False 0) ''abcb'' spans' \<longrightarrow> spans' = spans2"
    and m2: "mark_matches (caller_pattern False 0) ''abcb''
       = concat (map seg_marked (span_segments ''abcb'' spans2 0))"
    by blast
  from u2 w2 have sp2: "spans2 = [(1, 2)]" by blast
  have m2': "mark_matches (caller_pattern False 0) ''abcb'' = ''a'' @ mark_open @ ''b'' @ mark_close @ ''cb''"
    using m2 s2 by (simp only: sp2)
  from c a f w1 m1 w2 m2' show ?thesis by (simp only: simp_thms)
qed


section \<open>State between calls\<close>

text \<open>
  A call of one of the three operations, what it returns, and a sequence of calls run
  one after the other on the store; \<open>None\<close> when a call of the sequence does not return.
\<close>

datatype call =
    Identify js_value pattern_spec
  | Preview js_value pattern_spec
  | Redact js_value pattern_spec

datatype outcome = Scanned "js_error + scan_result" | Rewritten "js_error + js_value"

fun run_call :: "regexp_constructor \<Rightarrow> store \<Rightarrow> call \<Rightarrow> (outcome \<times> store) option" where
  "run_call mk h (Identify content patterns) =
     (case identifySensitiveText mk h content patterns of
        None \<Rightarrow> None
      | Some (r, h') \<Rightarrow> Some (Scanned r, h'))"
| "run_call mk h (Preview content patterns) =
     (case previewSensitiveContent mk h content patterns of (r, h') \<Rightarrow> Some (Rewritten r, h'))"
| "run_call mk h (Redact content patterns) =
     (case redactSensitiveContent mk h content patterns of (r, h') \<Rightarrow> Some (Rewritten r, h'))"

fun run_calls :: "regexp_constructor \<Rightarrow> store \<Rightarrow> call list \<Rightarrow> store option" where
  "run_calls mk h [] = Some h"
| "run_calls mk h (c # cs) =
     (case run_call mk h c of
        None \<Rightarrow> None
      | Some (_, h') \<Rightarrow> run_calls mk h' cs)"

text \<open>The same call made twice in a row, and the two results.\<close>

definition call_twice ::
  "regexp_constructor \<Rightarrow> store \<Rightarrow> call \<Rightarrow> (outcome \<times> outcome) option" where
  "call_twice mk h c =
     (case run_call mk h c of
        None \<Rightarrow> None
      | Some (r1, h1) \<Rightarrow>
          (case run_call mk h1 c of
             None \<Rightarrow> None
           | Some (r2, h2) \<Rightarrow> Some (r1, r2)))"

text \<open>
  The pattern objects of the store that a call uses: the default patterns when its
  pattern specification is absent or the empty string, else the RegExp objects of the
  caller that the array names.
\<close>

fun named_object :: "pattern_src \<Rightarrow> addr list" where
  "named_object (SrcRegExp a) = [a]"
| "named_object _ = []"

fun spec_objects :: "pattern_spec \<Rightarrow> addr list" where
  "spec_objects PNull = DEFAULT_PATTERNS"
| "spec_objects (PString s) = (if s = [] then DEFAULT_PATTERNS else [])"
| "spec_objects (PList srcs) = concat (map named_object srcs)"
| "spec_objects (PRegExp a) = []"

fun call_spec :: "call \<Rightarrow> pattern_spec" where
  "call_spec (Identify _ patterns) = patterns"
| "call_spec (Preview _ patterns) = patterns"
| "call_spec (Redact _ patterns) = patterns"

definition objects_of :: "call \<Rightarrow> addr list" where
  "objects_of c = spec_objects (call_spec c)"

fun is_scan :: "call \<Rightarrow> bool" where
  "is_scan (Identify _ _) = True"
| "is_scan _ = False"

text \<open>
  A pattern object is at rest when a scan with it starts at position 0: it is not
  global, or its \<open>lastIndex\<close> is 0.
\<close>

definition at_rest :: "regexp \<Rightarrow> bool" where
  "at_rest R = (global R \<longrightarrow> lastIndex R = 0)"

text \<open>What a call may do to the store: set the \<open>lastIndex\<close> of a global pattern to 0.\<close>

definition resets :: "store \<Rightarrow> store \<Rightarrow> bool" where
  "resets h h' = (\<forall>a. h' a = h a \<or> (global (h a) \<and> h' a = (h a)\<lparr>lastIndex := 0\<rparr>))"

lemma resets_refl: "resets h h"
  by (simp add: resets_def)

lemma resets_trans:
  assumes "resets h h1" and "resets h1 h2"
  shows "resets h h2"
  unfolding resets_def
proof
  fix a
  from assms(1) have 1: "h1 a = h a \<or> (global (h a) \<and> h1 a = (h a)\<lparr>lastIndex := 0\<rparr>)"
    by (simp add: resets_def)
  from assms(2) have 2: "h2 a = h1 a \<or> (global (h1 a) \<and> h2 a = (h1 a)\<lparr>lastIndex := 0\<rparr>)"
    by (simp add: resets_def)
  from 1 show "h2 a = h a \<or> (global (h a) \<and> h2 a = (h a)\<lparr>lastIndex := 0\<rparr>)"
  proof
    assume "h1 a = h a"
    with 2 show ?thesis by simp
  next
    assume b: "global (h a) \<and> h1 a = (h a)\<lparr>lastIndex := 0\<rparr>"
    then have "(h1 a)\<lparr>lastIndex := 0\<rparr> = (h a)\<lparr>lastIndex := 0\<rparr>" by simp
    with 2 b show ?thesis by auto
  qed
qed

lemma resets_assign:
  "resets h (assign h p (if global (deref h p) then (deref h p)\<lparr>lastIndex := 0\<rparr> else deref h p))"
  by (cases p) (simp_all add: resets_def)

lemma resets_settled:
  assumes "resets h h'" and "at_rest (h a)"
  shows "h' a = h a"
proof -
  from assms(1) have "h' a = h a \<or> (global (h a) \<and> h' a = (h a)\<lparr>lastIndex := 0\<rparr>)"
    by (simp add: resets_def)
  then show ?thesis
  proof
    assume "h' a = h a"
    then show ?thesis .
  next
    assume b: "global (h a) \<and> h' a = (h a)\<lparr>lastIndex := 0\<rparr>"
    with assms(2) have "lastIndex (h a) = 0" by (simp add: at_rest_def)
    then have "(h a)\<lparr>lastIndex := 0\<rparr> = h a" by (cases "h a") simp
    with b show ?thesis by simp
  qed
qed

lemma resets_pat_eq:
  assumes "resets h h'"
  shows "pat_eq (deref h' q) (deref h q)"
proof (cases q)
  case (Shared a)
  from assms have "h' a = h a \<or> (global (h a) \<and> h' a = (h a)\<lparr>lastIndex := 0\<rparr>)"
    by (simp add: resets_def)
  with Shared show ?thesis by (auto simp: pat_eq_def)
next
  case (Local R)
  then show ?thesis by (simp add: pat_eq_def)
qed

lemma identify_forEach_resets:
  "identify_forEach h ps s ms = Some (ms', h') \<Longrightarrow> resets h h'"
proof (induction ps arbitrary: h ms)
  case Nil
  then show ?case by (simp add: resets_refl)
next
  case (Cons p ps)
  let ?R = "deref h p"
  let ?R' = "if global ?R then ?R\<lparr>lastIndex := 0\<rparr> else ?R"
  from Cons.prems obtain spans where
    rest: "identify_forEach (assign h p ?R') ps s (ms @ map (to_match ?R s) spans) = Some (ms', h')"
    by (auto simp only: identify_forEach_Cons split: option.splits)
  from resets_trans [OF resets_assign Cons.IH [OF rest]] show ?case .
qed

lemma replace_forEach_resets: "resets h (snd (replace_forEach f h ps s))"
proof (induction ps arbitrary: h s)
  case Nil
  show ?case by (simp add: resets_refl)
next
  case (Cons p ps)
  have "snd (String_replace s (deref h p) f)
      = (if global (deref h p) then (deref h p)\<lparr>lastIndex := 0\<rparr> else deref h p)"
    by (rule String_replace_final)
  with resets_assign [of h p]
  have "resets h (assign h p (snd (String_replace s (deref h p) f)))" by simp
  from resets_trans [OF this Cons.IH] show ?case by (simp only: replace_forEach_Cons)
qed

lemma run_call_resets:
  assumes "run_call mk h c = Some (r, h')"
  shows "resets h h'"
proof (cases c)
  case (Identify content patterns)
  with assms obtain res where i: "identifySensitiveText mk h content patterns = Some (res, h')"
    by (auto split: option.splits)
  show ?thesis
  proof (cases "compilePatterns mk patterns")
    case (Inl e)
    with i show ?thesis by (simp add: identifySensitiveText_def resets_refl)
  next
    case (Inr ps)
    with i obtain ms where "identify_forEach h ps (ToString content) [] = Some (ms, h')"
      by (auto simp: identifySensitiveText_def split: option.splits)
    then show ?thesis by (rule identify_forEach_resets)
  qed
next
  case (Preview content patterns)
  with assms have h': "h' = snd (previewSensitiveContent mk h content patterns)"
    by (auto split: prod.splits)
  show ?thesis
  proof (cases content)
    case (Text s)
    with h' replace_forEach_resets [of h highlight _ s] show ?thesis
      by (auto simp: preview_Text resets_refl split: sum.splits)
  qed (use h' in \<open>auto simp: previewSensitiveContent_def resets_refl split: sum.splits\<close>)
next
  case (Redact content patterns)
  with assms have h': "h' = snd (redactSensitiveContent mk h content patterns)"
    by (auto split: prod.splits)
  show ?thesis
  proof (cases content)
    case (Text s)
    with h' replace_forEach_resets [of h REDACTED _ s] show ?thesis
      by (auto simp: redact_Text resets_refl split: sum.splits)
  qed (use h' in \<open>auto simp: redactSensitiveContent_def resets_refl split: sum.splits\<close>)
qed

lemma run_calls_resets: "run_calls mk h cs = Some h' \<Longrightarrow> resets h h'"
proof (induction cs arbitrary: h)
  case Nil
  then show ?case by (simp add: resets_refl)
next
  case (Cons c cs)
  from Cons.prems obtain r h1 where c: "run_call mk h c = Some (r, h1)"
    and rest: "run_calls mk h1 cs = Some h'"
    by (auto split: option.splits)
  from resets_trans [OF run_call_resets [OF c] Cons.IH [OF rest]] show ?case .
qed

lemma deref_assign_agree:
  "deref h q = deref h2 q \<Longrightarrow> deref (assign h p R) q = deref (assign h2 p R) q"
  by (cases p; cases q) auto

lemma identify_forEach_frame:
  "\<forall>p\<in>set ps. deref h p = deref h2 p \<Longrightarrow>
   map_option fst (identify_forEach h ps s ms) = map_option fst (identify_forEach h2 ps s ms)"
proof (induction ps arbitrary: h h2 ms)
  case Nil
  show ?case by simp
next
  case (Cons p ps)
  from Cons.prems have e: "deref h p = deref h2 p" by simp
  show ?case
  proof (cases "pattern_scan (deref h2 p) s")
    case None
    with e show ?thesis by (simp only: identify_forEach_Cons option.case option.map)
  next
    case (Some spans)
    let ?R = "deref h2 p"
    let ?R' = "if global ?R then ?R\<lparr>lastIndex := 0\<rparr> else ?R"
    have "\<forall>q\<in>set ps. deref (assign h p ?R') q = deref (assign h2 p ?R') q"
    proof
      fix q assume "q \<in> set ps"
      with Cons.prems have "deref h q = deref h2 q" by simp
      then show "deref (assign h p ?R') q = deref (assign h2 p ?R') q"
        by (rule deref_assign_agree)
    qed
    from Cons.IH [OF this] Some e show ?thesis
      by (simp only: identify_forEach_Cons option.case)
  qed
qed

lemma named_object_sources:
  "SrcRegExp b \<in> set srcs \<Longrightarrow> b \<in> set (concat (map named_object srcs))"
  by (induction srcs) auto

lemma compilePatterns_objects:
  assumes "compilePatterns mk patterns = Inr ps" and "Shared b \<in> set ps"
  shows "b \<in> set (spec_objects patterns)"
proof (cases "patterns = PNull \<or> patterns = PString []")
  case True
  with assms show ?thesis by auto
next
  case False
  then have n: "patterns \<noteq> PNull" "patterns \<noteq> PString []" by simp_all
  from compilePatterns_sources [OF n assms(1)] assms(2)
  have "Some (Shared b) \<in> set (map (compiled_of mk) (sources_of patterns))"
    by (simp add: set_filter_Boolean)
  then obtain src where "src \<in> set (sources_of patterns)" "compiled_of mk src = Some (Shared b)"
    by auto
  with compile_source_Shared [OF compiled_of_Some, of mk src b]
  have s: "SrcRegExp b \<in> set (sources_of patterns)" by simp
  show ?thesis
  proof (cases patterns)
    case (PList srcs)
    with s named_object_sources [of b srcs] show ?thesis by simp
  qed (use s in auto)
qed

lemma run_call_Preview:
  "map_option fst (run_call mk h (Preview content patterns))
     = Some (Rewritten (fst (previewSensitiveContent mk h content patterns)))"
  by (simp split: prod.splits)

lemma run_call_Redact:
  "map_option fst (run_call mk h (Redact content patterns))
     = Some (Rewritten (fst (redactSensitiveContent mk h content patterns)))"
  by (simp split: prod.splits)

text \<open>
  The result of a rewriting call does not depend on any \<open>lastIndex\<close>; the result of a
  scan depends on the store only through the objects its compiled list names.
\<close>

lemma rewrite_agree:
  assumes "\<forall>q. pat_eq (deref h q) (deref h2 q)" and "\<not> is_scan c"
  shows "map_option fst (run_call mk h c) = map_option fst (run_call mk h2 c)"
proof -
  have r: "\<forall>q. pat_eq (deref h2 q) (deref h2 q)" by (simp add: pat_eq_def)
  have e: "fst (replace_forEach f h ps s) = fst (replace_forEach f h2 ps s)" for f ps s
    using replace_forEach_foldl [OF assms(1), of f ps s] replace_forEach_foldl [OF r, of f ps s]
    by simp
  show ?thesis
  proof (cases c)
    case (Identify content patterns)
    with assms(2) show ?thesis by simp
  next
    case (Preview content patterns)
    have "fst (previewSensitiveContent mk h content patterns)
        = fst (previewSensitiveContent mk h2 content patterns)"
    proof (cases content)
      case (Text s)
      with e [of highlight] show ?thesis by (simp add: preview_Text split: sum.splits)
    qed (simp_all add: previewSensitiveContent_def split: sum.splits)
    then show ?thesis unfolding Preview by (simp only: run_call_Preview)
  next
    case (Redact content patterns)
    have "fst (redactSensitiveContent mk h content patterns)
        = fst (redactSensitiveContent mk h2 content patterns)"
    proof (cases content)
      case (Text s)
      with e [of REDACTED] show ?thesis by (simp add: redact_Text split: sum.splits)
    qed (simp_all add: redactSensitiveContent_def split: sum.splits)
    then show ?thesis unfolding Redact by (simp only: run_call_Redact)
  qed
qed

lemma scan_agree:
  assumes "\<forall>ps. compilePatterns mk patterns = Inr ps \<longrightarrow> (\<forall>p\<in>set ps. deref h p = deref h2 p)"
  shows "map_option fst (run_call mk h (Identify content patterns))
       = map_option fst (run_call mk h2 (Identify content patterns))"
proof (cases "compilePatterns mk patterns")
  case (Inl e)
  then show ?thesis by (simp add: identifySensitiveText_def)
next
  case (Inr ps)
  with assms have "\<forall>p\<in>set ps. deref h p = deref h2 p" by simp
  from identify_forEach_frame [OF this, of "ToString content" "[]"] Inr
  show ?thesis
    by (auto simp: identifySensitiveText_def split: option.splits)
qed

text \<open>A scan that returns leaves every object its compiled list names at rest.\<close>

lemma scan_settles:
  assumes "run_call mk h0 (Identify content patterns) = Some (r, h)"
    and "compilePatterns mk patterns = Inr ps" and "Shared a \<in> set ps"
  shows "at_rest (h a)"
proof -
  from assms(1,2) obtain ms where "identify_forEach h0 ps (ToString content) [] = Some (ms, h)"
    by (auto simp: identifySensitiveText_def split: option.splits)
  with identify_forEach_scan_groups [of h0 "[]" ps "ToString content" "[]"]
  have "h = store_after h0 ps"
    by (auto simp: store_after_Nil split: option.splits)
  with assms(3) show ?thesis by (simp add: store_after_def at_rest_def)
qed

lemma module_store_settled: "at_rest (module_store a)"
  by (simp add: at_rest_def module_store_def email_pattern_def phone_pattern_def ssn_pattern_def
      card_pattern_def filler_def)


text \<open>
  C10, as amended. Let any sequence of calls of the three operations, on any arguments,
  run to its end. A preview or a redaction then returns what it would have returned
  before the sequence, whatever the state of the pattern objects. A scan does so when
  the pattern objects it uses are at rest before the sequence, which holds for the
  default patterns as the module made them, for every pattern given as a string, and
  for an object of the caller that is not global or has \<open>lastIndex\<close> 0; and it does so
  from its second call on in every case, because a scan that returns leaves the
  objects it used at rest. The first scan with a global object of the caller whose
  \<open>lastIndex\<close> is not 0 starts at that position and sets it to 0, so the same call made
  again can return more matches. No call changes an object that is at rest: the
  default patterns are as the module made them after every sequence of calls.
\<close>

theorem calls_are_stateless:
  assumes "run_calls mk h cs = Some h'"
  shows "(\<not> is_scan c \<longrightarrow>
            map_option fst (run_call mk h' c) = map_option fst (run_call mk h c))
    \<and> ((\<forall>a\<in>set (objects_of c). at_rest (h a)) \<longrightarrow>
            map_option fst (run_call mk h' c) = map_option fst (run_call mk h c))
    \<and> ((\<exists>h0 r. run_call mk h0 c = Some (r, h)) \<longrightarrow>
            map_option fst (run_call mk h' c) = map_option fst (run_call mk h c))
    \<and> ((\<forall>a\<in>set DEFAULT_PATTERNS. h a = module_store a) \<longrightarrow>
            (\<forall>a\<in>set DEFAULT_PATTERNS. h' a = module_store a))
    \<and> (\<forall>a. at_rest (h a) \<longrightarrow> h' a = h a)"
proof -
  from run_calls_resets [OF assms] have r: "resets h h'" .
  have settled: "h' a = h a" if "at_rest (h a)" for a
    using r that by (rule resets_settled)
  have pe: "\<forall>q. pat_eq (deref h' q) (deref h q)"
    using resets_pat_eq [OF r] by blast
  have c1: "\<not> is_scan c \<longrightarrow>
            map_option fst (run_call mk h' c) = map_option fst (run_call mk h c)"
    using rewrite_agree [OF pe] by blast
  have c2: "(\<forall>a\<in>set (objects_of c). at_rest (h a)) \<longrightarrow>
            map_option fst (run_call mk h' c) = map_option fst (run_call mk h c)"
  proof
    assume a: "\<forall>a\<in>set (objects_of c). at_rest (h a)"
    show "map_option fst (run_call mk h' c) = map_option fst (run_call mk h c)"
    proof (cases "is_scan c")
      case False
      with c1 show ?thesis by simp
    next
      case True
      then obtain content patterns where c: "c = Identify content patterns" by (cases c) auto
      have "\<forall>ps. compilePatterns mk patterns = Inr ps \<longrightarrow> (\<forall>p\<in>set ps. deref h' p = deref h p)"
      proof (intro allI impI ballI)
        fix ps p assume cp: "compilePatterns mk patterns = Inr ps" and p: "p \<in> set ps"
        show "deref h' p = deref h p"
        proof (cases p)
          case (Shared b)
          with compilePatterns_objects [OF cp, of b] p a c have "at_rest (h b)"
            by (simp add: objects_of_def)
          from settled [OF this] Shared show ?thesis by simp
        next
          case (Local R)
          then show ?thesis by simp
        qed
      qed
      then show ?thesis unfolding c by (rule scan_agree)
    qed
  qed
  have c3: "(\<exists>h0 r. run_call mk h0 c = Some (r, h)) \<longrightarrow>
            map_option fst (run_call mk h' c) = map_option fst (run_call mk h c)"
  proof
    assume "\<exists>h0 r. run_call mk h0 c = Some (r, h)"
    then obtain h0 r0 where rc: "run_call mk h0 c = Some (r0, h)" by blast
    show "map_option fst (run_call mk h' c) = map_option fst (run_call mk h c)"
    proof (cases "is_scan c")
      case False
      with c1 show ?thesis by simp
    next
      case True
      then obtain content patterns where c: "c = Identify content patterns" by (cases c) auto
      have "\<forall>ps. compilePatterns mk patterns = Inr ps \<longrightarrow> (\<forall>p\<in>set ps. deref h' p = deref h p)"
      proof (intro allI impI ballI)
        fix ps p assume cp: "compilePatterns mk patterns = Inr ps" and p: "p \<in> set ps"
        show "deref h' p = deref h p"
        proof (cases p)
          case (Shared b)
          with scan_settles [OF rc [unfolded c] cp, of b] p have "at_rest (h b)" by simp
          from settled [OF this] Shared show ?thesis by simp
        next
          case (Local R)
          then show ?thesis by simp
        qed
      qed
      then show ?thesis unfolding c by (rule scan_agree)
    qed
  qed
  have c4: "(\<forall>a\<in>set DEFAULT_PATTERNS. h a = module_store a) \<longrightarrow>
            (\<forall>a\<in>set DEFAULT_PATTERNS. h' a = module_store a)"
  proof (intro impI ballI)
    fix a assume d: "\<forall>a\<in>set DEFAULT_PATTERNS. h a = module_store a" and a: "a \<in> set DEFAULT_PATTERNS"
    then have e: "h a = module_store a" by simp
    with module_store_settled [of a] have "at_rest (h a)" by simp
    from settled [OF this] e show "h' a = module_store a" by simp
  qed
  have c5: "\<forall>a. at_rest (h a) \<longrightarrow> h' a = h a"
    using settled by blast
  show ?thesis
    by (intro conjI) (rule c1, rule c2, rule c3, rule c4, rule c5)
qed

text \<open>
  The caller's \<open>/b/g\<close> with \<open>lastIndex\<close> 2 and the content \<open>abcb\<close>: the same scan, made
  twice in a row with the same arguments, returns one match and then two.
\<close>

theorem calls_same_arguments_counterexample:
  "call_twice RegExp_literal (caller_store (caller_pattern True 2))
       (Identify (Text ''abcb'') (PList [SrcRegExp 4]))
     = Some (Scanned (Inr \<lparr>matches =
                [\<lparr>match_text = ''b'', match_index = 3, match_length = 1, match_pattern = ''/b/g''\<rparr>],
              count = 1\<rparr>),
             Scanned (Inr \<lparr>matches =
                [\<lparr>match_text = ''b'', match_index = 1, match_length = 1, match_pattern = ''/b/g''\<rparr>,
                 \<lparr>match_text = ''b'', match_index = 3, match_length = 1, match_pattern = ''/b/g''\<rparr>],
              count = 2\<rparr>))"
  by code_simp

text \<open>
  Three calls from the module's store with one object of the caller, at rest, at
  address 4: the store after them is the store before them, and the first call returns
  the same two matches when it is made again.
\<close>

theorem calls_are_stateless_witness:
  "run_calls RegExp_literal (caller_store (caller_pattern True 0))
     [Identify (Text ''abcb'') (PList [SrcRegExp 4]),
      Redact (Text ''call 555-123-4567'') PNull,
      Preview (Text ''a@b.com'') (PString ''b'')]
   = Some (caller_store (caller_pattern True 0))
   \<and> objects_of (Identify (Text ''abcb'') (PList [SrcRegExp 4])) = [4]
   \<and> at_rest (caller_store (caller_pattern True 0) 4)
   \<and> list_all (\<lambda>a. caller_store (caller_pattern True 0) a = module_store a) DEFAULT_PATTERNS
   \<and> map_option fst
        (run_call RegExp_literal (caller_store (caller_pattern True 0))
           (Identify (Text ''abcb'') (PList [SrcRegExp 4])))
     = Some (Scanned (Inr \<lparr>matches =
                [\<lparr>match_text = ''b'', match_index = 1, match_length = 1, match_pattern = ''/b/g''\<rparr>,
                 \<lparr>match_text = ''b'', match_index = 3, match_length = 1, match_pattern = ''/b/g''\<rparr>],
              count = 2\<rparr>))"
proof -
  let ?h = "caller_store (caller_pattern True 0)"
  let ?c = "Identify (Text ''abcb'') (PList [SrcRegExp 4])"
  let ?cs = "[?c, Redact (Text ''call 555-123-4567'') PNull, Preview (Text ''a@b.com'') (PString ''b'')]"
  have "map_option (\<lambda>_. True) (run_calls RegExp_literal ?h ?cs) = Some True"
    by code_simp
  then obtain h' where h': "run_calls RegExp_literal ?h ?cs = Some h'"
    by (cases "run_calls RegExp_literal ?h ?cs") auto
  have rest: "at_rest (?h a)" for a
    using module_store_settled [of a]
    by (simp add: caller_store_def caller_pattern_def at_rest_def)
  from calls_are_stateless [OF h', of ?c]
  have s: "\<forall>a. at_rest (?h a) \<longrightarrow> h' a = ?h a"
    by blast
  have "h' a = ?h a" for a
    using s rest [of a] by blast
  then have eq: "h' = ?h" by (rule ext)
  have o: "objects_of ?c = [4]" by (simp add: objects_of_def)
  have d: "list_all (\<lambda>a. ?h a = module_store a) DEFAULT_PATTERNS"
    by (simp add: DEFAULT_PATTERNS_def caller_store_def)
  have r: "map_option fst (run_call RegExp_literal ?h ?c)
     = Some (Scanned (Inr \<lparr>matches =
                [\<lparr>match_text = ''b'', match_index = 1, match_length = 1, match_pattern = ''/b/g''\<rparr>,
                 \<lparr>match_text = ''b'', match_index = 3, match_length = 1, match_pattern = ''/b/g''\<rparr>],
              count = 2\<rparr>))"
    by code_simp
  from h' eq o rest [of 4] d r show ?thesis by (simp only: simp_thms)
qed


end
